theory Spec2Isabelle
  imports Main "HOL-Library.AList"
begin

section \<open>StateSync: a shallow embedding of \<open>src/index.js\<close>\<close>

text \<open>
  The module keeps three private tables, \<open>stores\<close>, \<open>listeners\<close> and \<open>derivedStates\<close>,
  and exports \<open>createStore\<close> and \<open>derive\<close>. A store handle is an object of closures over
  the store's name; every closure reaches the tables through that name only, so an
  operation of a handle is modelled as a function of the name and the tables.

  Scope of the embedding.
  \<^item> Store states are plain data: \<open>undefined\<close>, \<open>null\<close>, booleans, numbers (integers here),
    strings, arrays and objects with string keys. A property read sees the own
    properties of a value; what the host's prototype objects add to every object
    (\<open>constructor\<close>, \<open>toString\<close>, ...) is not part of the embedding, and neither are
    getters, symbols and function-valued properties.
  \<^item> Functions supplied by the caller (updaters, compute functions, listeners) are pure:
    they return a value or throw, and do not call back into the module. The calls the
    module makes to listeners and compute functions are recorded in a trace.
  \<^item> Values are compared by content. The one place where the identity of an object
    matters, the copy \<open>get()\<close> returns, is modelled a second time on a heap of objects.
  \<^item> Recursion of \<open>set\<close> through derived stores is bounded by fuel; running out of fuel
    is the outcome \<open>None\<close>, distinct from every thrown error.
  \<^item> \<open>bind\<close> writes to the DOM and is not modelled.
\<close>

subsection \<open>Values\<close>

type_synonym name = string

datatype val =
    VUndef
  | VNull
  | VBool bool
  | VNum int
  | VStr string
  | VArr "val list"
  | VObj "(string \<times> val) list"

datatype exn = TypeError | Thrown val

text \<open>JavaScript truthiness, as used by \<open>if (stores[name])\<close>, \<open>path ? ... : ...\<close> and
  \<open>!options.silent\<close>.\<close>

fun truthy :: "val \<Rightarrow> bool" where
  "truthy VUndef = False"
| "truthy VNull = False"
| "truthy (VBool b) = b"
| "truthy (VNum n) = (n \<noteq> 0)"
| "truthy (VStr s) = (s \<noteq> [])"
| "truthy (VArr xs) = True"
| "truthy (VObj al) = True"

text \<open>The canonical decimal spelling of an index, the key under which an array element
  or a character of a string is an own property.\<close>

definition digit_char :: "nat \<Rightarrow> char" where
  "digit_char d = char_of (48 + d)"

fun dec :: "nat \<Rightarrow> string" where
  "dec n = (if n < 10 then [digit_char n] else dec (n div 10) @ [digit_char (n mod 10)])"

declare dec.simps [simp del]

definition is_digit :: "char \<Rightarrow> bool" where
  "is_digit c = (c \<in> set ''0123456789'')"

definition parse_dec :: "string \<Rightarrow> int" where
  "parse_dec k = foldl (\<lambda>n c. 10 * n + (of_char c - 48)) 0 k"

text \<open>An array index is a canonical numeric key (digits only, no leading zero) below
  \<open>2^32 - 1\<close>; \<open>Object.keys\<close> lists such keys first, in ascending numeric order, and the
  other keys after them in insertion order.\<close>

definition is_array_index :: "string \<Rightarrow> bool" where
  "is_array_index k =
     (k \<noteq> [] \<and> list_all is_digit k \<and> (k = ''0'' \<or> hd k \<noteq> CHR ''0'')
      \<and> parse_dec k < 4294967295)"

definition own_keys :: "(string \<times> 'a) list \<Rightarrow> string list" where
  "own_keys al =
     sort_key parse_dec (filter is_array_index (map fst al))
       @ filter (\<lambda>k. \<not> is_array_index k) (map fst al)"

text \<open>The own enumerable properties that the spread \<open>{...v}\<close> copies, in order: the
  entries of an object, the indexed elements of an array or of a string, and nothing for
  \<open>undefined\<close>, \<open>null\<close>, booleans and numbers.\<close>

fun spread :: "val \<Rightarrow> (string \<times> val) list" where
  "spread (VObj al) = al"
| "spread (VArr xs) = zip (map dec [0..<length xs]) xs"
| "spread (VStr s) = zip (map dec [0..<length s]) (map (\<lambda>c. VStr [c]) s)"
| "spread v = []"

text \<open>\<open>{...a, ...b}\<close>: the properties of \<open>b\<close> are assigned one by one onto a copy of \<open>a\<close>;
  an existing key keeps its position, a new key is appended.\<close>

definition merge_props :: "(string \<times> val) list \<Rightarrow> (string \<times> val) list \<Rightarrow> (string \<times> val) list" where
  "merge_props al bl = fold (\<lambda>(k, v). AList.update k v) bl al"

text \<open>The own properties that a read \<open>o[key]\<close> finds: the entries of an object, the
  indexed elements and the \<open>length\<close> of an array or of a string. Booleans and numbers have
  none.\<close>

fun own_prop :: "val \<Rightarrow> string \<Rightarrow> val option" where
  "own_prop (VObj al) k = map_of al k"
| "own_prop (VArr xs) k =
     (if k = ''length'' then Some (VNum (int (length xs))) else map_of (spread (VArr xs)) k)"
| "own_prop (VStr s) k =
     (if k = ''length'' then Some (VNum (int (length s))) else map_of (spread (VStr s)) k)"
| "own_prop v k = None"

text \<open>The read \<open>o[key]\<close> of a key that no prototype object of the standard library has,
  such as the option \<open>silent\<close> that the module reads: it throws on \<open>undefined\<close> and \<open>null\<close>,
  and a missing own property reads as \<open>undefined\<close>.\<close>

definition own_get :: "val \<Rightarrow> string \<Rightarrow> exn + val" where
  "own_get ob k =
     (if ob = VUndef \<or> ob = VNull then Inl TypeError
      else Inr (case own_prop ob k of Some v \<Rightarrow> v | None \<Rightarrow> VUndef))"

text \<open>Besides plain data, a read of a caller's key can yield an object of the standard
  library (a built-in function or prototype object), named here by a string. No store
  state holds one.\<close>

datatype jsval = Data val | Builtin string

text \<open>The standard library is not part of the repository; it is a parameter of the
  lookup. \<open>H ob key\<close> is the outcome of the read \<open>ob[key]\<close> where the own properties above
  do not decide it: when \<open>ob\<close> is a built-in object, and when \<open>ob\<close> is a value without an
  own property \<open>key\<close>, whose prototype chain is then searched. The outcome is the value
  found (\<open>undefined\<close> when there is none), or the error of an accessor that throws.\<close>

type_synonym host = "jsval \<Rightarrow> string \<Rightarrow> exn + jsval"

text \<open>The property read \<open>o[key]\<close> of line 94. It throws on \<open>undefined\<close> and \<open>null\<close>.\<close>

definition js_get :: "host \<Rightarrow> jsval \<Rightarrow> string \<Rightarrow> exn + jsval" where
  "js_get H ob k =
     (case ob of
        Builtin b \<Rightarrow> H ob k
      | Data v \<Rightarrow>
          if v = VUndef \<or> v = VNull then Inl TypeError
          else (case own_prop v k of Some x \<Rightarrow> Inr (Data x) | None \<Rightarrow> H ob k))"

text \<open>The optional chain \<open>o?.[key]\<close>.\<close>

definition opt_get :: "host \<Rightarrow> jsval \<Rightarrow> string \<Rightarrow> exn + jsval" where
  "opt_get H ob k =
     (if ob = Data VUndef \<or> ob = Data VNull then Inr (Data VUndef) else js_get H ob k)"

text \<open>\<open>path.split('.')\<close>: the pieces between the dots, empty pieces included; the empty
  string splits into one empty piece.\<close>

fun split_on :: "char \<Rightarrow> string \<Rightarrow> string list" where
  "split_on c [] = [[]]"
| "split_on c (x # xs) =
     (if x = c then [] # split_on c xs
      else (case split_on c xs of [] \<Rightarrow> [[x]] | w # ws \<Rightarrow> (x # w) # ws))"

text \<open>\<open>keys.reduce((o, key) => o?.[key], obj)\<close>; an exception inside the callback ends the
  reduction.\<close>

fun reduce_keys :: "host \<Rightarrow> string list \<Rightarrow> exn + jsval \<Rightarrow> exn + jsval" where
  "reduce_keys H [] acc = acc"
| "reduce_keys H (k # ks) acc =
     (case acc of Inl e \<Rightarrow> Inl e | Inr ob \<Rightarrow> reduce_keys H ks (opt_get H ob k))"

definition getNestedValue :: "host \<Rightarrow> val \<Rightarrow> string \<Rightarrow> exn + jsval" where
  "getNestedValue H obj path = reduce_keys H (split_on CHR ''.'' path) (Inr (Data obj))"

subsection \<open>The tables\<close>

text \<open>A listener is a function object: the \<open>Set\<close> compares it by identity (\<open>lid\<close>); called
  with \<open>(nextState, prevState)\<close> it returns or throws (\<open>run\<close>).\<close>

datatype listener = Listener (lid: nat) (run: "val \<Rightarrow> val \<Rightarrow> exn option")

text \<open>What \<open>createStore\<close> returns: the object of closures over \<open>name\<close>, or, on the early
  return of line 13, the value found in \<open>stores[name]\<close>.\<close>

datatype ret = Handle name | Raw val

text \<open>An entry of \<open>derivedStates\<close> is \<open>{deps, update}\<close>; the closure \<open>update\<close> captures
  \<open>deps\<close>, \<open>computeFn\<close> and \<open>store\<close>, the value \<open>createStore(name)\<close> returned to \<open>derive\<close>.\<close>

record derived =
  deps :: "name list"
  computeFn :: "val list \<Rightarrow> exn + val"
  dstore :: ret

text \<open>The calls made to functions of the caller, in the order they are made.\<close>

datatype event =
    Notified name nat val val
  | Computed name "val list"

record sys =
  stores :: "name \<rightharpoonup> val"
  listeners :: "name \<rightharpoonup> listener list"
  derivedStates :: "(name \<times> derived) list"
  trace :: "event list"

definition init_sys :: sys where
  "init_sys = \<lparr>stores = Map.empty, listeners = Map.empty, derivedStates = [], trace = []\<rparr>"

type_synonym 'a result = "(exn + 'a) \<times> sys"

text \<open>\<open>stores[name]\<close>: \<open>undefined\<close> when the table has no such key.\<close>

definition stores_get :: "(name \<rightharpoonup> val) \<Rightarrow> name \<Rightarrow> val" where
  "stores_get st name = (case st name of None \<Rightarrow> VUndef | Some v \<Rightarrow> v)"

text \<open>\<open>Set.prototype.add\<close> and \<open>delete\<close> on an insertion-ordered set of listeners.\<close>

definition set_add :: "listener list \<Rightarrow> listener \<Rightarrow> listener list" where
  "set_add ls l = (if lid l \<in> lid ` set ls then ls else ls @ [l])"

definition set_delete :: "listener list \<Rightarrow> listener \<Rightarrow> listener list" where
  "set_delete ls l = filter (\<lambda>x. lid x \<noteq> lid l) ls"

subsection \<open>createStore\<close>

text \<open>Lines 12 to 17. With a truthy \<open>stores[name]\<close> the function returns that value
  itself; otherwise it stores a copy of \<open>initialState\<close> (whose default \<open>{}\<close> has the same
  copy as \<open>undefined\<close>), installs an empty listener set and returns the handle.\<close>

definition createStore :: "name \<Rightarrow> val \<Rightarrow> sys \<Rightarrow> ret \<times> sys" where
  "createStore name initialState s =
     (if truthy (stores_get (stores s) name) then (Raw (stores_get (stores s) name), s)
      else (Handle name,
            s\<lparr>stores := (stores s)(name \<mapsto> VObj (spread initialState)),
              listeners := (listeners s)(name \<mapsto> [])\<rparr>))"

subsection \<open>get\<close>

text \<open>Line 20. A falsy \<open>path\<close> (absent, or the empty string) gives the copy
  \<open>{...stores[name]}\<close>; a truthy one is split, which only a string can be.\<close>

definition get :: "host \<Rightarrow> name \<Rightarrow> val \<Rightarrow> sys \<Rightarrow> exn + jsval" where
  "get H name path s =
     (if truthy path then
        (case path of VStr p \<Rightarrow> getNestedValue H (stores_get (stores s) name) p | _ \<Rightarrow> Inl TypeError)
      else Inr (Data (VObj (spread (stores_get (stores s) name)))))"

subsection \<open>get without a path, on a heap of objects\<close>

text \<open>
  Whether a caller can reach a store's state through the value \<open>get()\<close> returned is a
  question of references. Here an object lives at an address of a heap, a value is a
  primitive or a reference, and \<open>stores[name]\<close> holds a value (the reference to the state
  object).
\<close>

datatype jv = JUndef | JNull | JBool bool | JNum int | JStr string | JRef nat

record heap_sys =
  heap :: "nat \<rightharpoonup> (string \<times> jv) list"
  next_addr :: nat
  cells :: "name \<rightharpoonup> jv"

text \<open>\<open>stores[name]\<close>.\<close>

definition cells_get :: "heap_sys \<Rightarrow> name \<Rightarrow> jv" where
  "cells_get hs name = (case cells hs name of None \<Rightarrow> JUndef | Some v \<Rightarrow> v)"

text \<open>The own enumerable properties copied by \<open>{...v}\<close>: those of the object a reference
  points to, the characters of a string, nothing otherwise. Property values are copied as
  they are, references included.\<close>

fun spread_ref :: "(nat \<rightharpoonup> (string \<times> jv) list) \<Rightarrow> jv \<Rightarrow> (string \<times> jv) list" where
  "spread_ref h (JRef a) = (case h a of None \<Rightarrow> [] | Some ps \<Rightarrow> ps)"
| "spread_ref h (JStr s) = zip (map dec [0..<length s]) (map (\<lambda>c. JStr [c]) s)"
| "spread_ref h v = []"

text \<open>Line 20 without a path: \<open>{...stores[name]}\<close> allocates a new object.\<close>

definition get_copy :: "name \<Rightarrow> heap_sys \<Rightarrow> jv \<times> heap_sys" where
  "get_copy name hs =
     (JRef (next_addr hs),
      hs\<lparr>heap := (heap hs)(next_addr hs \<mapsto> spread_ref (heap hs) (cells_get hs name)),
         next_addr := Suc (next_addr hs)\<rparr>)"

text \<open>What a caller can do to an object at the top level: \<open>o[k] = v\<close> and
  \<open>delete o[k]\<close>.\<close>

datatype mutation = Assign string jv | Delete string

fun mutate_props :: "mutation \<Rightarrow> (string \<times> jv) list \<Rightarrow> (string \<times> jv) list" where
  "mutate_props (Assign k v) ps = AList.update k v ps"
| "mutate_props (Delete k) ps = AList.delete k ps"

definition mutate :: "nat \<Rightarrow> mutation \<Rightarrow> heap_sys \<Rightarrow> heap_sys" where
  "mutate a m hs =
     (case heap hs a of
        None \<Rightarrow> hs
      | Some ps \<Rightarrow> hs\<lparr>heap := (heap hs)(a \<mapsto> mutate_props m ps)\<rparr>)"

text \<open>The properties of the object an operation returned.\<close>

definition props_of :: "jv \<times> heap_sys \<Rightarrow> (string \<times> jv) list option" where
  "props_of r = (case fst r of JRef a \<Rightarrow> heap (snd r) a | _ \<Rightarrow> None)"

text \<open>Addresses in use are below the next one to allocate, and the state of the store is
  a primitive or an object of the heap.\<close>

definition heap_ok :: "name \<Rightarrow> heap_sys \<Rightarrow> bool" where
  "heap_ok name hs =
     ((\<forall>a\<in>dom (heap hs). a < next_addr hs)
      \<and> (case cells_get hs name of JRef r \<Rightarrow> r \<in> dom (heap hs) | _ \<Rightarrow> True))"

subsection \<open>set, update and the scan of the derived table\<close>

datatype updater = UFun "val \<Rightarrow> exn + val" | UVal val

text \<open>Lines 25 to 27: a function updater is applied to the copy of the previous state,
  anything else is spread over it.\<close>

definition apply_updater :: "updater \<Rightarrow> val \<Rightarrow> exn + val" where
  "apply_updater updater prevState =
     (case updater of
        UFun f \<Rightarrow> f prevState
      | UVal u \<Rightarrow> Inr (VObj (merge_props (spread prevState) (spread u))))"

text \<open>\<open>options.silent\<close>, with the default \<open>options = {}\<close> for an absent argument.\<close>

definition silent_opt :: "val \<Rightarrow> exn + bool" where
  "silent_opt options =
     (case own_get (if options = VUndef then VObj [] else options) ''silent'' of
        Inl e \<Rightarrow> Inl e
      | Inr v \<Rightarrow> Inr (truthy v))"

text \<open>Line 33: \<open>listeners[name].forEach(listener => listener(nextState, prevState))\<close>.\<close>

fun call_listeners :: "name \<Rightarrow> val \<Rightarrow> val \<Rightarrow> listener list \<Rightarrow> sys \<Rightarrow> unit result" where
  "call_listeners name nextState prevState [] s = (Inr (), s)"
| "call_listeners name nextState prevState (l # ls) s =
     (let s1 = s\<lparr>trace := trace s @ [Notified name (lid l) nextState prevState]\<rparr> in
      case run l nextState prevState of
        Some e \<Rightarrow> (Inl e, s1)
      | None \<Rightarrow> call_listeners name nextState prevState ls s1)"

definition notify :: "name \<Rightarrow> val \<Rightarrow> val \<Rightarrow> sys \<Rightarrow> unit result" where
  "notify name nextState prevState s =
     (case listeners s name of
        None \<Rightarrow> (Inl TypeError, s)
      | Some ls \<Rightarrow> call_listeners name nextState prevState ls s)"

type_synonym setter = "name \<Rightarrow> updater \<Rightarrow> val \<Rightarrow> sys \<Rightarrow> val result option"

text \<open>Lines 80 to 84, the closure \<open>update\<close> of the derived store \<open>key\<close>. \<open>setf\<close> is the
  \<open>set\<close> of store handles. When \<open>store\<close> is not a handle but a stored state, which is
  plain data, \<open>store.set\<close> is not a function and the call throws.\<close>

definition update :: "setter \<Rightarrow> name \<Rightarrow> derived \<Rightarrow> sys \<Rightarrow> unit result option" where
  "update setf key d s =
     (let inputs = map (stores_get (stores s)) (deps d);
          s1 = s\<lparr>trace := trace s @ [Computed key inputs]\<rparr> in
      case computeFn d inputs of
        Inl e \<Rightarrow> Some (Inl e, s1)
      | Inr newState \<Rightarrow>
          (case dstore d of
             Raw v \<Rightarrow> Some (Inl TypeError, s1)
           | Handle h \<Rightarrow>
               (case setf h (UVal newState) (VObj [(''silent'', VBool False)]) s1 of
                  None \<Rightarrow> None
                | Some (Inl e, s2) \<Rightarrow> Some (Inl e, s2)
                | Some (Inr v, s2) \<Rightarrow> Some (Inr (), s2))))"

text \<open>Lines 37 to 41, the body of the \<open>forEach\<close> over \<open>Object.keys(derivedStates)\<close>.\<close>

fun run_updates :: "setter \<Rightarrow> name \<Rightarrow> name list \<Rightarrow> sys \<Rightarrow> unit result option" where
  "run_updates setf name [] s = Some (Inr (), s)"
| "run_updates setf name (key # keys) s =
     (case map_of (derivedStates s) key of
        None \<Rightarrow> Some (Inl TypeError, s)
      | Some d \<Rightarrow>
          if name \<in> set (deps d) then
            (case update setf key d s of
               None \<Rightarrow> None
             | Some (Inl e, s1) \<Rightarrow> Some (Inl e, s1)
             | Some (Inr u, s1) \<Rightarrow> run_updates setf name keys s1)
          else run_updates setf name keys s)"

text \<open>Lines 23 to 44. The fuel bounds the depth of \<open>set\<close> calls nested through \<open>update\<close>.\<close>

primrec set_fuel :: "nat \<Rightarrow> setter" where
  "set_fuel 0 = (\<lambda>name updater options s. None)"
| "set_fuel (Suc n) = (\<lambda>name updater options s.
     let prevState = VObj (spread (stores_get (stores s) name)) in
     case apply_updater updater prevState of
       Inl e \<Rightarrow> Some (Inl e, s)
     | Inr nextState \<Rightarrow>
         let s1 = s\<lparr>stores := (stores s)(name \<mapsto> nextState)\<rparr> in
         (case silent_opt options of
            Inl e \<Rightarrow> Some (Inl e, s1)
          | Inr silent \<Rightarrow>
              (case (if silent then (Inr (), s1) else notify name nextState prevState s1) of
                 (Inl e, s2) \<Rightarrow> Some (Inl e, s2)
               | (Inr u, s2) \<Rightarrow>
                   (case run_updates (set_fuel n) name (own_keys (derivedStates s2)) s2 of
                      None \<Rightarrow> None
                    | Some (Inl e, s3) \<Rightarrow> Some (Inl e, s3)
                    | Some (Inr u', s3) \<Rightarrow> Some (Inr nextState, s3)))))"

subsection \<open>subscribe and the function it returns\<close>

text \<open>Lines 47 to 50. The returned closure is \<open>unsubscribe name callback\<close>.\<close>

definition subscribe :: "name \<Rightarrow> listener \<Rightarrow> sys \<Rightarrow> unit result" where
  "subscribe name callback s =
     (case listeners s name of
        None \<Rightarrow> (Inl TypeError, s)
      | Some ls \<Rightarrow> (Inr (), s\<lparr>listeners := (listeners s)(name \<mapsto> set_add ls callback)\<rparr>))"

definition unsubscribe :: "name \<Rightarrow> listener \<Rightarrow> sys \<Rightarrow> unit result" where
  "unsubscribe name callback s =
     (case listeners s name of
        None \<Rightarrow> (Inl TypeError, s)
      | Some ls \<Rightarrow> (Inr (), s\<lparr>listeners := (listeners s)(name \<mapsto> set_delete ls callback)\<rparr>))"

subsection \<open>derive\<close>

text \<open>Lines 77 to 90.\<close>

definition derive :: "nat \<Rightarrow> name \<Rightarrow> name list \<Rightarrow> (val list \<Rightarrow> exn + val) \<Rightarrow> sys \<Rightarrow> ret result option" where
  "derive n name ds f s =
     (let (store, s1) = createStore name VUndef s;
          d = \<lparr>deps = ds, computeFn = f, dstore = store\<rparr>;
          s2 = s1\<lparr>derivedStates := AList.update name d (derivedStates s1)\<rparr> in
      case update (set_fuel n) name d s2 of
        None \<Rightarrow> None
      | Some (Inl e, s3) \<Rightarrow> Some (Inl e, s3)
      | Some (Inr u, s3) \<Rightarrow> Some (Inr store, s3))"

section \<open>Notions used to state the properties\<close>

subsection \<open>Events and dependencies\<close>

text \<open>The calls an operation added to the trace, given the systems before and after.\<close>

definition new_events :: "sys \<Rightarrow> sys \<Rightarrow> event list" where
  "new_events s s' = drop (length (trace s)) (trace s')"

text \<open>The notifications of the listeners \<open>ls\<close> of a store, in order.\<close>

definition written :: "name \<Rightarrow> val \<Rightarrow> val \<Rightarrow> listener list \<Rightarrow> event list" where
  "written name nextState prevState ls = map (\<lambda>l. Notified name (lid l) nextState prevState) ls"

text \<open>The store an event belongs to.\<close>

fun ev_name :: "event \<Rightarrow> name" where
  "ev_name (Notified name l nextState prevState) = name"
| "ev_name (Computed name inputs) = name"

text \<open>Entry \<open>k\<close> of the derived table lists \<open>x\<close> in its \<open>deps\<close>; the edges \<open>x \<rightarrow> k\<close> of the
  dependency graph.\<close>

definition depends_on :: "(name \<times> derived) list \<Rightarrow> name \<Rightarrow> name \<Rightarrow> bool" where
  "depends_on D k x = (case map_of D k of None \<Rightarrow> False | Some d \<Rightarrow> x \<in> set (deps d))"

definition edges :: "(name \<times> derived) list \<Rightarrow> (name \<times> name) set" where
  "edges D = {(x, k). depends_on D k x}"

text \<open>Every entry of the derived table made by \<open>derive\<close> under the key \<open>name\<close> holds
  either the handle of the store \<open>name\<close> or a stored state.\<close>

definition wf_derived :: "(name \<times> derived) list \<Rightarrow> bool" where
  "wf_derived D = list_all (\<lambda>(k, d). case dstore d of Handle h \<Rightarrow> h = k | Raw v \<Rightarrow> True) D"

text \<open>The derived store \<open>k\<close> is up to date in the table of states \<open>st\<close>: its compute
  function returns some \<open>r\<close> on the live states of its \<open>deps\<close>, in list order, and its state
  is \<open>{...p, ...r}\<close> for some \<open>p\<close>, which is what \<open>set\<close> stores for the updater \<open>r\<close>.\<close>

definition consistent :: "(name \<times> derived) list \<Rightarrow> (name \<rightharpoonup> val) \<Rightarrow> name \<Rightarrow> bool" where
  "consistent D st k =
     (case map_of D k of
        None \<Rightarrow> False
      | Some d \<Rightarrow>
          (case computeFn d (map (stores_get st) (deps d)) of
             Inl e \<Rightarrow> False
           | Inr r \<Rightarrow> (\<exists>p. st k = Some (VObj (merge_props (spread p) (spread r))))))"

text \<open>What the induction on the fuel carries for a \<open>set\<close> on store \<open>h\<close> that returns: the
  two other tables are unchanged, the calls made concern \<open>h\<close> or stores reachable from it in
  the dependency graph, every other store whose state changed had its compute function
  called, stores not reachable from \<open>h\<close> are unchanged, and \<open>h\<close> is on no cycle.\<close>

definition local_step :: "name \<Rightarrow> sys \<Rightarrow> sys \<Rightarrow> bool" where
  "local_step h s s' =
     (derivedStates s' = derivedStates s \<and> listeners s' = listeners s
        \<and> (\<exists>rest. trace s' = trace s @ rest
              \<and> (\<forall>e\<in>set rest. ev_name e = h \<or> (h, ev_name e) \<in> (edges (derivedStates s))\<^sup>+)
              \<and> (\<forall>y. y \<noteq> h \<and> stores s' y \<noteq> stores s y \<longrightarrow> (\<exists>ins. Computed y ins \<in> set rest)))
        \<and> (\<forall>y. y \<noteq> h \<and> (h, y) \<notin> (edges (derivedStates s))\<^sup>+ \<longrightarrow> stores s' y = stores s y)
        \<and> (h, h) \<notin> (edges (derivedStates s))\<^sup>+)"

definition local_setter :: "setter \<Rightarrow> bool" where
  "local_setter setf =
     (\<forall>h u opts s v s'. setf h u opts s = Some (Inr v, s') \<longrightarrow> wf_derived (derivedStates s)
        \<longrightarrow> local_step h s s')"




subsection \<open>Concrete callers and systems used as inputs\<close>

definition sys_of :: "'a result option \<Rightarrow> sys" where
  "sys_of r = (case r of Some (x, s) \<Rightarrow> s | None \<Rightarrow> init_sys)"

definition quiet :: "val \<Rightarrow> val \<Rightarrow> exn option" where
  "quiet nextState prevState = None"

definition to_null :: "val \<Rightarrow> exn + val" where
  "to_null prevState = Inr VNull"

definition no_inputs :: "val list \<Rightarrow> exn + val" where
  "no_inputs inputs = Inr (VObj [])"

text \<open>\<open>createStore('x', {a: 1})\<close> and then \<open>createStore('x', {b: 2})\<close>.\<close>

definition c1_first :: "ret \<times> sys" where
  "c1_first = createStore ''x'' (VObj [(''a'', VNum 1)]) init_sys"

definition c1_second :: "ret \<times> sys" where
  "c1_second = createStore ''x'' (VObj [(''b'', VNum 2)]) (snd c1_first)"

text \<open>\<open>const h = createStore('x', {}); h.set(() => null)\<close>.\<close>

definition c5_sys :: sys where
  "c5_sys = (case set_fuel 1 ''x'' (UFun to_null) VUndef (snd (createStore ''x'' (VObj []) init_sys)) of
               Some (r, s) \<Rightarrow> s | None \<Rightarrow> init_sys)"

text \<open>An excerpt of the ECMAScript standard library, for the examples. Every value with
  a prototype inherits \<open>constructor\<close>, a built-in function (\<open>Object\<close> for an object). The
  own \<open>name\<close> of a built-in function is a string. Its \<open>caller\<close> and \<open>arguments\<close> are found
  on \<open>Function.prototype\<close>, where they are accessors that throw a \<open>TypeError\<close>. The
  excerpt answers \<open>undefined\<close> to every other read.\<close>

fun constructor_name :: "val \<Rightarrow> string" where
  "constructor_name (VArr xs) = ''Array''"
| "constructor_name (VStr s) = ''String''"
| "constructor_name (VNum n) = ''Number''"
| "constructor_name (VBool b) = ''Boolean''"
| "constructor_name v = ''Object''"

definition es_excerpt :: host where
  "es_excerpt ob k =
     (case ob of
        Data v \<Rightarrow> if k = ''constructor'' then Inr (Builtin (constructor_name v)) else Inr (Data VUndef)
      | Builtin b \<Rightarrow>
          if k = ''caller'' \<or> k = ''arguments'' then Inl TypeError
          else if k = ''name'' then Inr (Data (VStr b))
          else Inr (Data VUndef))"

text \<open>\<open>createStore('user', {preferences: {theme: 'light'}})\<close>.\<close>

definition c7_sys :: sys where
  "c7_sys = snd (createStore ''user'' (VObj [(''preferences'', VObj [(''theme'', VStr ''light'')])]) init_sys)"

text \<open>\<open>createStore('x', {})\<close>, and the same followed by \<open>subscribe(l7)\<close>.\<close>

definition c8_fresh :: sys where
  "c8_fresh = snd (createStore ''x'' (VObj []) init_sys)"

definition c8_sys :: sys where
  "c8_sys = snd (subscribe ''x'' (Listener 7 quiet) c8_fresh)"

text \<open>
  A store \<open>user\<close> with one listener, a store \<open>ui\<close> derived from it with one listener, and
  a store \<open>badge\<close> derived from \<open>ui\<close>:
  \<^verbatim>\<open>
  const userStore = createStore('user', {loggedIn: false});
  userStore.subscribe(l7);
  const uiStore = derive('ui', ['user'],
    user => user?.loggedIn ? {welcome: true} : {guest: true});
  const badgeStore = derive('badge', ['ui'],
    ui => ({label: ui?.welcome ? 'in' : 'out'}));
  uiStore.subscribe(l8);
  \<close>
\<close>

text \<open>The optional read \<open>o?.[key]\<close> of a key that no prototype object has.\<close>

definition own_opt :: "val \<Rightarrow> string \<Rightarrow> exn + val" where
  "own_opt ob k = (if ob = VUndef \<or> ob = VNull then Inr VUndef else own_get ob k)"

definition arg0 :: "val list \<Rightarrow> val" where
  "arg0 inputs = (case inputs of [] \<Rightarrow> VUndef | a # rest \<Rightarrow> a)"

definition ui_of :: "val list \<Rightarrow> exn + val" where
  "ui_of inputs =
     (case own_opt (arg0 inputs) ''loggedIn'' of
        Inl e \<Rightarrow> Inl e
      | Inr b \<Rightarrow> Inr (if truthy b then VObj [(''welcome'', VBool True)]
                     else VObj [(''guest'', VBool True)]))"

definition badge_of :: "val list \<Rightarrow> exn + val" where
  "badge_of inputs =
     (case own_opt (arg0 inputs) ''welcome'' of
        Inl e \<Rightarrow> Inl e
      | Inr w \<Rightarrow> Inr (VObj [(''label'', if truthy w then VStr ''in'' else VStr ''out'')]))"

definition demo_user_sys :: sys where
  "demo_user_sys =
     snd (subscribe ''user'' (Listener 7 quiet)
       (snd (createStore ''user'' (VObj [(''loggedIn'', VBool False)]) init_sys)))"

definition demo_ui_sys :: sys where
  "demo_ui_sys = sys_of (derive 2 ''ui'' [''user''] ui_of demo_user_sys)"

definition demo_badge_sys :: sys where
  "demo_badge_sys = sys_of (derive 2 ''badge'' [''ui''] badge_of demo_ui_sys)"

definition demo_sys :: sys where
  "demo_sys = snd (subscribe ''ui'' (Listener 8 quiet) demo_badge_sys)"

text \<open>\<open>userStore.set({loggedIn: true})\<close>, the same with \<open>{silent: true}\<close>, and
  \<open>uiStore.set({welcome: true})\<close>, each on \<open>demo_sys\<close>.\<close>

definition login :: updater where
  "login = UVal (VObj [(''loggedIn'', VBool True)])"

definition demo_set :: "val result option" where
  "demo_set = set_fuel 3 ''user'' login VUndef demo_sys"


definition demo_direct :: "val result option" where
  "demo_direct = set_fuel 3 ''ui'' (UVal (VObj [(''welcome'', VBool True)])) VUndef demo_sys"

text \<open>A store \<open>x\<close> whose state \<open>{a: 1, inner: {b: 2}}\<close> is at address 0.\<close>

definition h6 :: heap_sys where
  "h6 = \<lparr>heap = [0 \<mapsto> [(''a'', JNum 1), (''inner'', JRef 1)], 1 \<mapsto> [(''b'', JNum 2)]],
         next_addr = 2,
         cells = [''x'' \<mapsto> JRef 0]\<rparr>"

section \<open>Properties\<close>

text \<open>
  The properties of \<open>set\<close> below are stated for calls that return, and for systems whose
  derived table is well formed (\<open>wf_derived\<close>), which it is initially and after every
  operation (lemmas \<open>wf_derived_init\<close> to \<open>wf_derived_derive\<close>). More fuel never changes an
  outcome (\<open>set_fuel_mono\<close>), and with an acyclic dependency graph and callers that do
  not throw, enough fuel makes every \<open>set\<close> return (\<open>set_returns\<close>).
\<close>

subsection \<open>Registration\<close>

lemma createStore_again:
  "createStore name B (snd (createStore name A s))
     = (Raw (stores_get (stores (snd (createStore name A s))) name), snd (createStore name A s))"
  by (simp add: createStore_def stores_get_def)

lemma createStore_state_truthy: "truthy (stores_get (stores (snd (createStore name A s))) name)"
  by (simp add: createStore_def stores_get_def)

text \<open>
  C1. The claim: \<open>createStore(name, A)\<close> followed by \<open>createStore(name, B)\<close> returns the
  same store handle, with state \<open>A\<close>, and raises no error. The state is indeed the copy
  of \<open>A\<close> and nothing is raised, but the second call returns \<open>stores[name]\<close>, the stored
  state object, where the first returned the handle: for \<open>A = {a: 1}\<close> and \<open>B = {b: 2}\<close>
  the second result is the object \<open>{a: 1}\<close>, which has no \<open>get\<close>, \<open>set\<close>, \<open>subscribe\<close>
  or \<open>bind\<close>.
\<close>

theorem createStore_twice_returns_state_not_handle:
  "fst c1_first = Handle ''x'' \<and> fst c1_second = Raw (VObj [(''a'', VNum 1)])
   \<and> fst c1_second \<noteq> fst c1_first \<and> stores_get (stores (snd c1_second)) ''x'' = VObj [(''a'', VNum 1)]"
  by (simp add: c1_first_def c1_second_def createStore_def init_sys_def stores_get_def)

text \<open>
  C5. The claim: for every name under which \<open>createStore\<close> was called before,
  \<open>derive(name, deps, f)\<close> throws during its first recomputation. This holds whenever
  \<open>stores[name]\<close> is truthy when \<open>derive\<close> is called: \<open>createStore(name)\<close> then returns
  the stored state, the entry of \<open>derivedStates\<close> is written, and \<open>update\<close> throws, either
  the error of \<open>f\<close> or the \<open>TypeError\<close> of calling \<open>store.set\<close> on plain data. The stores
  are left as they were.
\<close>

theorem derive_over_existing_store_throws:
  assumes "truthy (stores_get (stores s) name)"
  shows "\<exists>e s'. derive n name ds f s = Some (Inl e, s')
           \<and> (f (map (stores_get (stores s)) ds) = Inl e
                \<or> e = TypeError \<and> (\<exists>r. f (map (stores_get (stores s)) ds) = Inr r))
           \<and> stores s' = stores s
           \<and> map_of (derivedStates s') name
               = Some \<lparr>deps = ds, computeFn = f, dstore = Raw (stores_get (stores s) name)\<rparr>"
proof -
  let ?d = "\<lparr>deps = ds, computeFn = f, dstore = Raw (stores_get (stores s) name)\<rparr>"
  let ?s2 = "s\<lparr>derivedStates := AList.update name ?d (derivedStates s)\<rparr>"
  let ?s3 = "?s2\<lparr>trace := trace ?s2 @ [Computed name (map (stores_get (stores s)) ds)]\<rparr>"
  have c: "createStore name VUndef s = (Raw (stores_get (stores s) name), s)"
    using assms by (simp add: createStore_def)
  have g: "map (stores_get (stores ?s2)) ds = map (stores_get (stores s)) ds"
    by (simp add: stores_get_def)
  have m: "map_of (derivedStates ?s3) name = Some ?d"
    by (simp add: update_conv')
  show ?thesis
  proof (cases "f (map (stores_get (stores s)) ds)")
    case (Inl e)
    then have "derive n name ds f s = Some (Inl e, ?s3)"
      by (simp add: derive_def c update_def g Let_def)
    with Inl m show ?thesis by simp
  next
    case (Inr r)
    then have "derive n name ds f s = Some (Inl TypeError, ?s3)"
      by (simp add: derive_def c update_def g Let_def)
    with Inr m show ?thesis by simp
  qed
qed

theorem derive_over_existing_store_throws_witness:
  "truthy (stores_get (stores (snd c1_first)) ''x'')
   \<and> map_option fst (derive 0 ''x'' [] no_inputs (snd c1_first)) = Some (Inl TypeError)"
proof -
  have t: "truthy (stores_get (stores (snd c1_first)) ''x'')" by code_simp
  have r: "no_inputs (map (stores_get (stores (snd c1_first))) []) = Inr (VObj [])"
    by (simp add: no_inputs_def)
  from derive_over_existing_store_throws [OF t, of 0 "[]" no_inputs] r
  have "map_option fst (derive 0 ''x'' [] no_inputs (snd c1_first)) = Some (Inl TypeError)"
    by auto
  with t show ?thesis by blast
qed

text \<open>
  A state made falsy by a function updater is the exception: after
  \<open>createStore('x', {})\<close> and \<open>set(() => null)\<close>, \<open>derive('x', [], f)\<close> finds
  \<open>stores['x']\<close> falsy, creates the store anew and returns its handle.
\<close>

theorem derive_after_createStore_returns_handle:
  "stores_get (stores (snd (createStore ''x'' (VObj []) init_sys))) ''x'' = VObj []
   \<and> stores_get (stores c5_sys) ''x'' = VNull
   \<and> map_option fst (derive 1 ''x'' [] no_inputs c5_sys) = Some (Inr (Handle ''x''))"
  by code_simp

subsection \<open>Path lookup\<close>













text \<open>
  For a store \<open>user\<close> with state \<open>{preferences: {theme: 'light'}}\<close>: the state has no own
  key \<open>constructor\<close>, and \<open>get('constructor.name')\<close> is the string \<open>'Object'\<close>, not
  \<open>undefined\<close>; \<open>get('constructor.caller')\<close> reads \<open>caller\<close> off the function \<open>Object\<close>
  and throws a \<open>TypeError\<close>.
\<close>

theorem get_constructor_caller_throws:
  "own_prop (stores_get (stores c7_sys) ''user'') ''constructor'' = None
   \<and> get es_excerpt ''user'' (VStr ''constructor.name'') c7_sys = Inr (Data (VStr ''Object''))
   \<and> get es_excerpt ''user'' (VStr ''constructor.caller'') c7_sys = Inl TypeError"
  by code_simp

subsection \<open>Subscribing and unsubscribing\<close>

lemma call_listeners_trace_prefix:
  "\<exists>t. trace (snd (call_listeners name nx pv ls s)) = trace s @ t
       \<and> set t \<subseteq> (\<lambda>l. Notified name (lid l) nx pv) ` set ls"
proof (induction ls arbitrary: s)
  case Nil
  show ?case by simp
next
  case (Cons l ls)
  let ?s1 = "s\<lparr>trace := trace s @ [Notified name (lid l) nx pv]\<rparr>"
  show ?case
  proof (cases "run l nx pv")
    case (Some e)
    then show ?thesis by (simp add: Let_def)
  next
    case None
    from Cons [of ?s1] obtain t where
      "trace (snd (call_listeners name nx pv ls ?s1)) = trace ?s1 @ t"
      "set t \<subseteq> (\<lambda>l. Notified name (lid l) nx pv) ` set ls" by blast
    with None show ?thesis by (simp add: Let_def) blast
  qed
qed

lemma set_delete_not_member: "lid cb \<notin> lid ` set (set_delete ls cb)"
  by (auto simp: set_delete_def)

lemma set_delete_add: "set_delete (set_add ls cb) cb = set_delete ls cb"
  by (simp add: set_delete_def set_add_def)

lemma set_delete_fresh: "lid cb \<notin> lid ` set ls \<Longrightarrow> set_delete ls cb = ls"
  by (induction ls) (auto simp: set_delete_def)

lemma set_delete_idem: "set_delete (set_delete ls cb) cb = set_delete ls cb"
  by (simp add: set_delete_def)

text \<open>
  C8. The claim: calling the function returned by \<open>subscribe\<close> restores the listener set
  to its membership before the subscription, the listener is not notified any more, and
  a second call is a no-op that raises nothing. What the code does for a store with
  listener set \<open>ls\<close>: subscribing and unsubscribing \<open>cb\<close> leaves \<open>ls\<close> without \<open>cb\<close>;
  this is the system before the subscription exactly when \<open>cb\<close> was not subscribed
  already; a notification of the store then makes no call to \<open>cb\<close>; and a second call of
  the unsubscribe function changes nothing and raises nothing.
\<close>

theorem unsubscribe_removes_listener:
  assumes "listeners s name = Some ls"
  shows "fst (subscribe name cb s) = Inr ()
    \<and> fst (unsubscribe name cb (snd (subscribe name cb s))) = Inr ()
    \<and> listeners (snd (unsubscribe name cb (snd (subscribe name cb s)))) name
         = Some (set_delete ls cb)
    \<and> (lid cb \<notin> lid ` set ls \<longrightarrow>
         snd (unsubscribe name cb (snd (subscribe name cb s))) = s)
    \<and> Notified name (lid cb) nx pv \<notin> set (new_events
         (snd (unsubscribe name cb (snd (subscribe name cb s))))
         (snd (notify name nx pv (snd (unsubscribe name cb (snd (subscribe name cb s)))))))
    \<and> unsubscribe name cb (snd (unsubscribe name cb (snd (subscribe name cb s))))
         = (Inr (), snd (unsubscribe name cb (snd (subscribe name cb s))))"
proof -
  let ?s2 = "snd (unsubscribe name cb (snd (subscribe name cb s)))"
  have s2: "?s2 = s\<lparr>listeners := (listeners s)(name \<mapsto> set_delete ls cb)\<rparr>"
    using assms by (simp add: subscribe_def unsubscribe_def set_delete_add)
  have a: "fst (subscribe name cb s) = Inr ()"
    using assms by (simp add: subscribe_def)
  have b: "fst (unsubscribe name cb (snd (subscribe name cb s))) = Inr ()"
    using assms by (simp add: subscribe_def unsubscribe_def)
  have c: "listeners ?s2 name = Some (set_delete ls cb)"
    by (simp add: s2)
  have d: "?s2 = s" if "lid cb \<notin> lid ` set ls"
  proof -
    have "(listeners s)(name \<mapsto> ls) = listeners s"
      using assms by (simp add: fun_upd_idem)
    with that show ?thesis by (simp add: s2 set_delete_fresh)
  qed
  have e: "Notified name (lid cb) nx pv \<notin> set (new_events ?s2 (snd (notify name nx pv ?s2)))"
  proof -
    obtain t where t: "trace (snd (call_listeners name nx pv (set_delete ls cb) ?s2)) = trace ?s2 @ t"
      "set t \<subseteq> (\<lambda>l. Notified name (lid l) nx pv) ` set (set_delete ls cb)"
      using call_listeners_trace_prefix by blast
    have "Notified name (lid cb) nx pv \<notin> set t"
      using t(2) set_delete_not_member [of cb ls] by auto
    with t(1) c show ?thesis by (simp add: new_events_def notify_def)
  qed
  have f: "unsubscribe name cb ?s2 = (Inr (), ?s2)"
  proof -
    have "(listeners ?s2)(name \<mapsto> set_delete ls cb) = listeners ?s2"
      using c by (simp add: fun_upd_idem)
    with c show ?thesis by (simp add: unsubscribe_def set_delete_idem)
  qed
  from a b c d e f show ?thesis by blast
qed
theorem unsubscribe_removes_listener_witness:
  "listeners c8_fresh ''x'' = Some []
   \<and> lid (Listener 7 quiet) \<notin> lid ` set []
   \<and> snd (unsubscribe ''x'' (Listener 7 quiet) (snd (subscribe ''x'' (Listener 7 quiet) c8_fresh))) = c8_fresh
   \<and> unsubscribe ''x'' (Listener 7 quiet)
        (snd (unsubscribe ''x'' (Listener 7 quiet) (snd (subscribe ''x'' (Listener 7 quiet) c8_fresh))))
      = (Inr (), c8_fresh)"
proof -
  have h: "listeners c8_fresh ''x'' = Some []"
    by (simp add: c8_fresh_def createStore_def init_sys_def stores_get_def)
  have n: "lid (Listener 7 quiet) \<notin> lid ` set []" by simp
  note th = unsubscribe_removes_listener [OF h, of "Listener 7 quiet"]
  from th n have d: "snd (unsubscribe ''x'' (Listener 7 quiet) (snd (subscribe ''x'' (Listener 7 quiet) c8_fresh))) = c8_fresh"
    by blast
  from th have "unsubscribe ''x'' (Listener 7 quiet)
        (snd (unsubscribe ''x'' (Listener 7 quiet) (snd (subscribe ''x'' (Listener 7 quiet) c8_fresh))))
      = (Inr (), snd (unsubscribe ''x'' (Listener 7 quiet) (snd (subscribe ''x'' (Listener 7 quiet) c8_fresh))))"
    by blast
  with d have f: "unsubscribe ''x'' (Listener 7 quiet) c8_fresh = (Inr (), c8_fresh)" by simp
  from h n d f show ?thesis by simp
qed

text \<open>
  When the listener was subscribed already, \<open>add\<close> is a no-op and the unsubscribe function
  of the second subscription removes it: the set \<open>{l7}\<close> before the subscription is empty
  afterwards.
\<close>

theorem unsubscribe_after_resubscribe_drops_member:
  "map_option (map lid) (listeners c8_sys ''x'') = Some [7]
   \<and> map_option (map lid) (listeners
        (snd (unsubscribe ''x'' (Listener 7 quiet) (snd (subscribe ''x'' (Listener 7 quiet) c8_sys)))) ''x'')
      = Some []"
  by code_simp

subsection \<open>What a returning set call does\<close>

lemma call_listeners_ok:
  "call_listeners name nx pv ls s = (Inr u, s')
     \<Longrightarrow> s' = s\<lparr>trace := trace s @ written name nx pv ls\<rparr> \<and> (\<forall>l\<in>set ls. run l nx pv = None)"
proof (induction ls arbitrary: s)
  case Nil
  then show ?case by (simp add: written_def)
next
  case (Cons l ls)
  from Cons.prems have r: "run l nx pv = None"
    by (cases "run l nx pv") (simp_all add: Let_def)
  with Cons.prems have
    "call_listeners name nx pv ls (s\<lparr>trace := trace s @ [Notified name (lid l) nx pv]\<rparr>) = (Inr u, s')"
    by (simp add: Let_def)
  from Cons.IH [OF this] r show ?case by (simp add: written_def)
qed

lemma notify_ok:
  assumes "notify name nx pv s = (Inr u, s')"
  obtains ls where "listeners s name = Some ls"
    "s' = s\<lparr>trace := trace s @ written name nx pv ls\<rparr>"
    "\<forall>l\<in>set ls. run l nx pv = None"
proof (cases "listeners s name")
  case None
  with assms show ?thesis by (simp add: notify_def)
next
  case (Some ls)
  with assms have "call_listeners name nx pv ls s = (Inr u, s')" by (simp add: notify_def)
  from call_listeners_ok [OF this] Some that show ?thesis by blast
qed

lemma update_ok:
  assumes "update setf key d s = Some (Inr u, s')"
  obtains r h v where
    "computeFn d (map (stores_get (stores s)) (deps d)) = Inr r"
    "dstore d = Handle h"
    "setf h (UVal r) (VObj [(''silent'', VBool False)])
       (s\<lparr>trace := trace s @ [Computed key (map (stores_get (stores s)) (deps d))]\<rparr>)
     = Some (Inr v, s')"
  using assms
  by (auto simp: update_def Let_def split: sum.splits ret.splits option.splits prod.splits)

lemma run_updates_Cons_ok:
  assumes "run_updates setf name (k # ks) s = Some (Inr u, s')"
  obtains d where "map_of (derivedStates s) k = Some d" "name \<notin> set (deps d)"
      "run_updates setf name ks s = Some (Inr u, s')"
  | d s1 where "map_of (derivedStates s) k = Some d" "name \<in> set (deps d)"
      "update setf k d s = Some (Inr (), s1)" "run_updates setf name ks s1 = Some (Inr u, s')"
  using assms
  by (auto split: option.splits if_splits sum.splits prod.splits)

lemma set_fuel_Suc_ok:
  assumes "set_fuel (Suc n) name upd opts s = Some (Inr v, s')"
  obtains silent evs where
    "apply_updater upd (VObj (spread (stores_get (stores s) name))) = Inr v"
    "silent_opt opts = Inr silent"
    "silent \<longrightarrow> evs = []"
    "\<not> silent \<longrightarrow> (\<exists>ls. listeners s name = Some ls
        \<and> evs = written name v (VObj (spread (stores_get (stores s) name))) ls
        \<and> (\<forall>l\<in>set ls. run l v (VObj (spread (stores_get (stores s) name))) = None))"
    "run_updates (set_fuel n) name (own_keys (derivedStates s))
       (s\<lparr>stores := (stores s)(name \<mapsto> v), trace := trace s @ evs\<rparr>) = Some (Inr (), s')"
proof -
  let ?prev = "VObj (spread (stores_get (stores s) name))"
  let ?s1 = "s\<lparr>stores := (stores s)(name \<mapsto> v)\<rparr>"
  from assms have a: "apply_updater upd ?prev = Inr v"
    by (auto simp: Let_def split: sum.splits option.splits prod.splits)
  from assms a obtain silent where b: "silent_opt opts = Inr silent"
    by (cases "silent_opt opts") (auto simp: Let_def)
  show ?thesis
  proof (cases silent)
    case True
    with assms a b have "run_updates (set_fuel n) name (own_keys (derivedStates s)) ?s1 = Some (Inr (), s')"
      by (auto simp: Let_def split: sum.splits option.splits prod.splits)
    then have "run_updates (set_fuel n) name (own_keys (derivedStates s))
       (s\<lparr>stores := (stores s)(name \<mapsto> v), trace := trace s @ []\<rparr>) = Some (Inr (), s')"
      by simp
    with a b True that [of silent "[]"] show ?thesis by simp
  next
    case False
    with assms a b obtain s2 where n: "notify name v ?prev ?s1 = (Inr (), s2)"
      and r: "run_updates (set_fuel n) name (own_keys (derivedStates s2)) s2 = Some (Inr (), s')"
      by (auto simp: Let_def split: sum.splits option.splits prod.splits)
    from notify_ok [OF n] obtain ls where ls: "listeners ?s1 name = Some ls"
      "s2 = ?s1\<lparr>trace := trace ?s1 @ written name v ?prev ls\<rparr>"
      "\<forall>l\<in>set ls. run l v ?prev = None" by blast
    from r ls(2) have "run_updates (set_fuel n) name (own_keys (derivedStates s))
       (s\<lparr>stores := (stores s)(name \<mapsto> v), trace := trace s @ written name v ?prev ls\<rparr>) = Some (Inr (), s')"
      by simp
    with a b False ls that [of silent "written name v ?prev ls"] show ?thesis by simp
  qed
qed

lemma set_own_keys: "set (own_keys al) = fst ` set al"
  by (auto simp: own_keys_def)

lemma depends_on_key: "depends_on D k x \<Longrightarrow> k \<in> set (own_keys D)"
  by (auto simp: depends_on_def set_own_keys split: option.splits dest: map_of_SomeD intro: rev_image_eqI)

lemma wf_derived_handle:
  "wf_derived D \<Longrightarrow> map_of D k = Some d \<Longrightarrow> dstore d = Handle h \<Longrightarrow> h = k"
  by (auto simp: wf_derived_def list_all_iff dest!: map_of_SomeD)

lemma apply_updater_UVal:
  "apply_updater (UVal r) (VObj al) = Inr (VObj (merge_props al (spread r)))"
  by (simp add: apply_updater_def)

lemma stores_get_upd_other: "y \<noteq> x \<Longrightarrow> stores_get (st(x \<mapsto> v)) y = stores_get st y"
  by (simp add: stores_get_def)

lemma inputs_upd_other:
  "x \<notin> set ds \<Longrightarrow> map (stores_get (st(x \<mapsto> v))) ds = map (stores_get st) ds"
  by (induction ds) (auto simp: stores_get_upd_other)

lemma consistent_write_elsewhere:
  assumes "consistent D st k" "\<not> depends_on D k x" "k \<noteq> x"
  shows "consistent D (st(x \<mapsto> v)) k"
proof -
  from assms(1) obtain d r p where d: "map_of D k = Some d"
    and r: "computeFn d (map (stores_get st) (deps d)) = Inr r"
    and p: "st k = Some (VObj (merge_props (spread p) (spread r)))"
    by (auto simp: consistent_def split: option.splits sum.splits)
  from d assms(2) have "x \<notin> set (deps d)" by (simp add: depends_on_def)
  then have "map (stores_get (st(x \<mapsto> v))) (deps d) = map (stores_get st) (deps d)"
    by (rule inputs_upd_other)
  then have "computeFn d (map (stores_get (st(x \<mapsto> v))) (deps d)) = Inr r"
    by (simp only: r)
  moreover have "(st(x \<mapsto> v)) k = Some (VObj (merge_props (spread p) (spread r)))"
    using p assms(3) by simp
  ultimately show ?thesis using d by (simp add: consistent_def) blast
qed

lemma consistent_own_write:
  assumes "map_of D k = Some d" "k \<notin> set (deps d)"
    "computeFn d (map (stores_get st) (deps d)) = Inr r"
  shows "consistent D (st(k \<mapsto> VObj (merge_props (spread p) (spread r)))) k"
proof -
  have "map (stores_get (st(k \<mapsto> VObj (merge_props (spread p) (spread r))))) (deps d)
          = map (stores_get st) (deps d)"
    using assms(2) by (rule inputs_upd_other)
  then have "computeFn d (map (stores_get (st(k \<mapsto> VObj (merge_props (spread p) (spread r))))) (deps d)) = Inr r"
    by (simp only: assms(3))
  then show ?thesis using assms(1) by (simp add: consistent_def) blast
qed

lemma update_consistent:
  assumes Q: "\<And>h u opts s v s'. setf h u opts s = Some (Inr v, s') \<Longrightarrow> wf_derived (derivedStates s) \<Longrightarrow>
      derivedStates s' = derivedStates s
      \<and> apply_updater u (VObj (spread (stores_get (stores s) h))) = Inr v
      \<and> (\<forall>k. depends_on (derivedStates s) k h \<longrightarrow> consistent (derivedStates s) (stores s') k)
      \<and> (\<forall>k. consistent (derivedStates s) ((stores s)(h \<mapsto> v)) k \<longrightarrow> consistent (derivedStates s) (stores s') k)"
    and upd: "update setf k d s = Some (Inr u, s')"
    and d: "map_of (derivedStates s) k = Some d"
    and wf: "wf_derived (derivedStates s)"
  shows "derivedStates s' = derivedStates s
    \<and> consistent (derivedStates s) (stores s') k
    \<and> (\<forall>k'. consistent (derivedStates s) (stores s) k' \<longrightarrow> consistent (derivedStates s) (stores s') k')"
proof -
  let ?D = "derivedStates s"
  let ?s1 = "s\<lparr>trace := trace s @ [Computed k (map (stores_get (stores s)) (deps d))]\<rparr>"
  from update_ok [OF upd] obtain r h v where
    r: "computeFn d (map (stores_get (stores s)) (deps d)) = Inr r" and h: "dstore d = Handle h"
    and c: "setf h (UVal r) (VObj [(''silent'', VBool False)]) ?s1 = Some (Inr v, s')" by blast
  from wf_derived_handle [OF wf d h] have hk: "h = k" .
  from Q [OF c] wf have q1: "derivedStates s' = ?D"
    and q2: "apply_updater (UVal r) (VObj (spread (stores_get (stores s) h))) = Inr v"
    and q3: "\<And>k'. depends_on ?D k' h \<Longrightarrow> consistent ?D (stores s') k'"
    and q4: "\<And>k'. consistent ?D ((stores s)(h \<mapsto> v)) k' \<Longrightarrow> consistent ?D (stores s') k'"
    by simp_all
  from q2 have v: "v = VObj (merge_props (spread (stores_get (stores s) k)) (spread r))"
    by (simp add: apply_updater_UVal hk)
  have own: "consistent ?D (stores s') k"
  proof (cases "depends_on ?D k k")
    case True
    then show ?thesis using q3 hk by simp
  next
    case False
    with d have "k \<notin> set (deps d)" by (simp add: depends_on_def)
    from consistent_own_write [OF d this r, of "stores_get (stores s) k"]
    have "consistent ?D ((stores s)(h \<mapsto> v)) k" by (simp add: v hk)
    then show ?thesis by (rule q4)
  qed
  have pres: "consistent ?D (stores s') k'" if k': "consistent ?D (stores s) k'" for k'
  proof (cases "k' = k")
    case True
    with own show ?thesis by simp
  next
    case ne: False
    show ?thesis
    proof (cases "depends_on ?D k' k")
      case True
      then show ?thesis using q3 hk by simp
    next
      case False
      from consistent_write_elsewhere [OF k' False ne, of v]
      show ?thesis using q4 hk by simp
    qed
  qed
  from q1 own pres show ?thesis by blast
qed

lemma run_updates_consistent:
  assumes Q: "\<And>h u opts s v s'. setf h u opts s = Some (Inr v, s') \<Longrightarrow> wf_derived (derivedStates s) \<Longrightarrow>
      derivedStates s' = derivedStates s
      \<and> apply_updater u (VObj (spread (stores_get (stores s) h))) = Inr v
      \<and> (\<forall>k. depends_on (derivedStates s) k h \<longrightarrow> consistent (derivedStates s) (stores s') k)
      \<and> (\<forall>k. consistent (derivedStates s) ((stores s)(h \<mapsto> v)) k \<longrightarrow> consistent (derivedStates s) (stores s') k)"
    and run: "run_updates setf x ks s = Some (Inr u, s')"
    and wf: "wf_derived (derivedStates s)"
  shows "derivedStates s' = derivedStates s
    \<and> (\<forall>k. consistent (derivedStates s) (stores s) k \<longrightarrow> consistent (derivedStates s) (stores s') k)
    \<and> (\<forall>k\<in>set ks. depends_on (derivedStates s) k x \<longrightarrow> consistent (derivedStates s) (stores s') k)"
  using run wf
proof (induction ks arbitrary: s)
  case Nil
  then show ?case by simp
next
  case (Cons k ks)
  from Cons.prems(1) show ?case
  proof (cases rule: run_updates_Cons_ok)
    case (1 d)
    from Cons.IH [OF 1(3) Cons.prems(2)] 1(1,2) show ?thesis
      by (auto simp: depends_on_def)
  next
    case (2 d s1)
    from update_consistent [OF Q 2(3) 2(1) Cons.prems(2)]
    have u1: "derivedStates s1 = derivedStates s"
      and u2: "consistent (derivedStates s) (stores s1) k"
      and u3: "\<And>k'. consistent (derivedStates s) (stores s) k' \<Longrightarrow> consistent (derivedStates s) (stores s1) k'"
      by (simp_all add: Q)
    from Cons.prems(2) u1 have "wf_derived (derivedStates s1)" by simp
    from Cons.IH [OF 2(4) this] u1
    have i1: "derivedStates s' = derivedStates s"
      and i2: "\<And>k'. consistent (derivedStates s) (stores s1) k' \<Longrightarrow> consistent (derivedStates s) (stores s') k'"
      and i3: "\<And>k'. k' \<in> set ks \<Longrightarrow> depends_on (derivedStates s) k' x \<Longrightarrow> consistent (derivedStates s) (stores s') k'"
      by simp_all
    from i1 u2 u3 i2 i3 show ?thesis by auto
  qed
qed

lemma set_fuel_consistent:
  "set_fuel n x upd opts s = Some (Inr v, s') \<Longrightarrow> wf_derived (derivedStates s) \<Longrightarrow>
      derivedStates s' = derivedStates s
      \<and> apply_updater upd (VObj (spread (stores_get (stores s) x))) = Inr v
      \<and> (\<forall>k. depends_on (derivedStates s) k x \<longrightarrow> consistent (derivedStates s) (stores s') k)
      \<and> (\<forall>k. consistent (derivedStates s) ((stores s)(x \<mapsto> v)) k \<longrightarrow> consistent (derivedStates s) (stores s') k)"
proof (induction n arbitrary: x upd opts s v s')
  case 0
  then show ?case by simp
next
  case (Suc n)
  from Suc.prems(1) obtain silent evs where
    a: "apply_updater upd (VObj (spread (stores_get (stores s) x))) = Inr v"
    and r: "run_updates (set_fuel n) x (own_keys (derivedStates s))
       (s\<lparr>stores := (stores s)(x \<mapsto> v), trace := trace s @ evs\<rparr>) = Some (Inr (), s')"
    by (rule set_fuel_Suc_ok)
  let ?s1 = "s\<lparr>stores := (stores s)(x \<mapsto> v), trace := trace s @ evs\<rparr>"
  have wf1: "wf_derived (derivedStates ?s1)" using Suc.prems(2) by simp
  from run_updates_consistent [of "set_fuel n", OF Suc.IH r wf1]
  have "derivedStates s' = derivedStates s"
    and "\<And>k. consistent (derivedStates s) ((stores s)(x \<mapsto> v)) k \<Longrightarrow> consistent (derivedStates s) (stores s') k"
    and "\<And>k. k \<in> set (own_keys (derivedStates s)) \<Longrightarrow> depends_on (derivedStates s) k x \<Longrightarrow> consistent (derivedStates s) (stores s') k"
    by simp_all
  with a depends_on_key show ?case by blast
qed

lemma local_setterD:
  "local_setter setf \<Longrightarrow> setf h u opts s = Some (Inr v, s') \<Longrightarrow> wf_derived (derivedStates s)
     \<Longrightarrow> local_step h s s'"
  unfolding local_setter_def by blast

lemma update_events:
  assumes Q: "local_setter setf"
    and upd: "update setf k d s = Some (Inr u, s')"
    and d: "map_of (derivedStates s) k = Some d"
    and wf: "wf_derived (derivedStates s)"
  shows "derivedStates s' = derivedStates s \<and> listeners s' = listeners s
    \<and> (\<exists>ins rest. trace s' = trace s @ Computed k ins # rest
          \<and> (\<forall>e\<in>set rest. ev_name e = k \<or> (k, ev_name e) \<in> (edges (derivedStates s))\<^sup>+)
          \<and> (\<forall>y. y \<noteq> k \<and> stores s' y \<noteq> stores s y \<longrightarrow> (\<exists>ins'. Computed y ins' \<in> set rest)))
    \<and> (\<forall>y. y \<noteq> k \<and> (k, y) \<notin> (edges (derivedStates s))\<^sup>+ \<longrightarrow> stores s' y = stores s y)
    \<and> (k, k) \<notin> (edges (derivedStates s))\<^sup>+"
proof -
  let ?ins = "map (stores_get (stores s)) (deps d)"
  let ?s1 = "s\<lparr>trace := trace s @ [Computed k ?ins]\<rparr>"
  from update_ok [OF upd] obtain r h v where
    h: "dstore d = Handle h"
    and c: "setf h (UVal r) (VObj [(''silent'', VBool False)]) ?s1 = Some (Inr v, s')" by blast
  from wf_derived_handle [OF wf d h] have hk: "h = k" .
  have "wf_derived (derivedStates ?s1)" using wf by simp
  from local_setterD [OF Q c this] have "local_step h ?s1 s'" .
  then show ?thesis unfolding hk local_step_def by simp blast
qed

lemma run_updates_events:
  assumes Q: "local_setter setf"
    and run: "run_updates setf x ks s = Some (Inr u, s')"
    and wf: "wf_derived (derivedStates s)"
  shows "derivedStates s' = derivedStates s \<and> listeners s' = listeners s
    \<and> (\<exists>rest. trace s' = trace s @ rest
          \<and> (\<forall>e\<in>set rest. (x, ev_name e) \<in> (edges (derivedStates s))\<^sup>+)
          \<and> (\<forall>k\<in>set ks. depends_on (derivedStates s) k x \<longrightarrow> (\<exists>ins. Computed k ins \<in> set rest))
          \<and> (\<forall>y. stores s' y \<noteq> stores s y \<longrightarrow> (\<exists>ins. Computed y ins \<in> set rest)))
    \<and> (\<forall>y. (x, y) \<notin> (edges (derivedStates s))\<^sup>+ \<longrightarrow> stores s' y = stores s y)
    \<and> (\<forall>k\<in>set ks. depends_on (derivedStates s) k x \<longrightarrow> (k, k) \<notin> (edges (derivedStates s))\<^sup>+)"
  using run wf
proof (induction ks arbitrary: s)
  case Nil
  then show ?case by simp
next
  case (Cons k ks)
  let ?E = "edges (derivedStates s)"
  from Cons.prems(1) show ?case
  proof (cases rule: run_updates_Cons_ok)
    case (1 d)
    from Cons.IH [OF 1(3) Cons.prems(2)] 1(1,2) show ?thesis
      by (auto simp: depends_on_def)
  next
    case (2 d s1)
    have xk: "(x, k) \<in> ?E" using 2(1,2) by (simp add: edges_def depends_on_def)
    from update_events [OF Q 2(3) 2(1) Cons.prems(2)] obtain ins rest1 where
      u1: "derivedStates s1 = derivedStates s" and u2: "listeners s1 = listeners s"
      and u3: "trace s1 = trace s @ Computed k ins # rest1"
      and u4: "\<forall>e\<in>set rest1. ev_name e = k \<or> (k, ev_name e) \<in> ?E\<^sup>+"
      and u7: "\<forall>y. y \<noteq> k \<and> stores s1 y \<noteq> stores s y \<longrightarrow> (\<exists>ins'. Computed y ins' \<in> set rest1)"
      and u5: "\<forall>y. y \<noteq> k \<and> (k, y) \<notin> ?E\<^sup>+ \<longrightarrow> stores s1 y = stores s y"
      and u6: "(k, k) \<notin> ?E\<^sup>+" by blast
    from Cons.prems(2) u1 have "wf_derived (derivedStates s1)" by simp
    from Cons.IH [OF 2(4) this] u1 obtain rest2 where
      i1: "derivedStates s' = derivedStates s" and i2: "listeners s' = listeners s1"
      and i3: "trace s' = trace s1 @ rest2"
      and i4: "\<forall>e\<in>set rest2. (x, ev_name e) \<in> ?E\<^sup>+"
      and i5: "\<forall>k'\<in>set ks. depends_on (derivedStates s) k' x \<longrightarrow> (\<exists>ins. Computed k' ins \<in> set rest2)"
      and i8: "\<forall>y. stores s' y \<noteq> stores s1 y \<longrightarrow> (\<exists>ins. Computed y ins \<in> set rest2)"
      and i6: "\<forall>y. (x, y) \<notin> ?E\<^sup>+ \<longrightarrow> stores s' y = stores s1 y"
      and i7: "\<forall>k'\<in>set ks. depends_on (derivedStates s) k' x \<longrightarrow> (k', k') \<notin> ?E\<^sup>+"
      by auto
    let ?rest = "Computed k ins # rest1 @ rest2"
    have t: "trace s' = trace s @ ?rest" using u3 i3 by simp
    have e1: "(x, ev_name e) \<in> ?E\<^sup>+" if "e \<in> set ?rest" for e
    proof -
      from that consider "e = Computed k ins" | "e \<in> set rest1" | "e \<in> set rest2" by auto
      then show ?thesis
      proof cases
        case 1
        with xk show ?thesis by auto
      next
        case 2
        with u4 have "ev_name e = k \<or> (k, ev_name e) \<in> ?E\<^sup>+" by blast
        with xk show ?thesis by (auto intro: trancl_into_trancl2)
      next
        case 3
        with i4 show ?thesis by blast
      qed
    qed
    have e2: "\<exists>ins'. Computed k' ins' \<in> set ?rest"
      if "k' \<in> set (k # ks)" "depends_on (derivedStates s) k' x" for k'
      using that i5 by auto
    have e3: "\<exists>ins'. Computed y ins' \<in> set ?rest" if "stores s' y \<noteq> stores s y" for y
    proof (cases "stores s' y = stores s1 y")
      case False
      with i8 show ?thesis by auto
    next
      case True
      with that have ne: "stores s1 y \<noteq> stores s y" by simp
      show ?thesis
      proof (cases "y = k")
        case True
        then show ?thesis by auto
      next
        case False
        with ne u7 show ?thesis by auto
      qed
    qed
    have st: "stores s' y = stores s y" if "(x, y) \<notin> ?E\<^sup>+" for y
    proof -
      from that xk have "y \<noteq> k" by auto
      moreover from that xk have "(k, y) \<notin> ?E\<^sup>+" by (auto intro: trancl_into_trancl2)
      ultimately have "stores s1 y = stores s y" using u5 by blast
      with i6 that show ?thesis by simp
    qed
    have cy: "(k', k') \<notin> ?E\<^sup>+" if "k' \<in> set (k # ks)" "depends_on (derivedStates s) k' x" for k'
      using that u6 i7 by auto
    have ex: "\<exists>rest. trace s' = trace s @ rest
          \<and> (\<forall>e\<in>set rest. (x, ev_name e) \<in> ?E\<^sup>+)
          \<and> (\<forall>k'\<in>set (k # ks). depends_on (derivedStates s) k' x \<longrightarrow> (\<exists>ins. Computed k' ins \<in> set rest))
          \<and> (\<forall>y. stores s' y \<noteq> stores s y \<longrightarrow> (\<exists>ins. Computed y ins \<in> set rest))"
    proof (intro exI [of _ ?rest] conjI ballI impI allI)
      show "trace s' = trace s @ ?rest" by (rule t)
    next
      fix e assume "e \<in> set ?rest"
      then show "(x, ev_name e) \<in> ?E\<^sup>+" by (rule e1)
    next
      fix k' assume "k' \<in> set (k # ks)" "depends_on (derivedStates s) k' x"
      then show "\<exists>ins'. Computed k' ins' \<in> set ?rest" by (rule e2)
    next
      fix y assume "stores s' y \<noteq> stores s y"
      then show "\<exists>ins'. Computed y ins' \<in> set ?rest" by (rule e3)
    qed
    have l: "listeners s' = listeners s" using i2 u2 by simp
    from i1 l ex st cy show ?thesis by simp
  qed
qed

lemma set_fuel_local: "local_setter (set_fuel n)"
proof (induction n)
  case 0
  show ?case by (simp add: local_setter_def)
next
  case (Suc n)
  show ?case unfolding local_setter_def
  proof (intro allI impI)
    fix x upd opts s v s'
    assume ok: "set_fuel (Suc n) x upd opts s = Some (Inr v, s')"
      and wf: "wf_derived (derivedStates s)"
    let ?E = "edges (derivedStates s)"
    from ok obtain silent evs where
      "apply_updater upd (VObj (spread (stores_get (stores s) x))) = Inr v"
      and "silent_opt opts = Inr silent"
      and sil: "silent \<longrightarrow> evs = []"
      and nsil: "\<not> silent \<longrightarrow> (\<exists>ls. listeners s x = Some ls
        \<and> evs = written x v (VObj (spread (stores_get (stores s) x))) ls
        \<and> (\<forall>l\<in>set ls. run l v (VObj (spread (stores_get (stores s) x))) = None))"
      and r: "run_updates (set_fuel n) x (own_keys (derivedStates s))
         (s\<lparr>stores := (stores s)(x \<mapsto> v), trace := trace s @ evs\<rparr>) = Some (Inr (), s')"
      by (rule set_fuel_Suc_ok)
    let ?s1 = "s\<lparr>stores := (stores s)(x \<mapsto> v), trace := trace s @ evs\<rparr>"
    have evx: "\<forall>e\<in>set evs. ev_name e = x"
      using sil nsil by (cases silent) (auto simp: written_def)
    have wf1: "wf_derived (derivedStates ?s1)" using wf by simp
    from run_updates_events [OF Suc r wf1] obtain rest where
      i1: "derivedStates s' = derivedStates s" and i2: "listeners s' = listeners s"
      and i3: "trace s' = trace s @ evs @ rest"
      and i4: "\<forall>e\<in>set rest. (x, ev_name e) \<in> ?E\<^sup>+"
      and i8: "\<forall>y. stores s' y \<noteq> ((stores s)(x \<mapsto> v)) y \<longrightarrow> (\<exists>ins. Computed y ins \<in> set rest)"
      and i6: "\<forall>y. (x, y) \<notin> ?E\<^sup>+ \<longrightarrow> stores s' y = ((stores s)(x \<mapsto> v)) y"
      and i7: "\<forall>k\<in>set (own_keys (derivedStates s)). depends_on (derivedStates s) k x \<longrightarrow> (k, k) \<notin> ?E\<^sup>+"
      by auto
    have cyc: "(x, x) \<notin> ?E\<^sup>+"
    proof
      assume "(x, x) \<in> ?E\<^sup>+"
      then obtain k where k1: "(x, k) \<in> ?E" and k2: "(k, x) \<in> ?E\<^sup>*" by (blast dest: tranclD)
      from k1 have dk: "depends_on (derivedStates s) k x" by (simp add: edges_def)
      with i7 depends_on_key have "(k, k) \<notin> ?E\<^sup>+" by blast
      moreover from k2 k1 have "(k, k) \<in> ?E\<^sup>+" by (rule rtrancl_into_trancl1)
      ultimately show False by blast
    qed
    have ev: "\<forall>e\<in>set (evs @ rest). ev_name e = x \<or> (x, ev_name e) \<in> ?E\<^sup>+"
      using evx i4 by auto
    have ch: "\<forall>y. y \<noteq> x \<and> stores s' y \<noteq> stores s y \<longrightarrow> (\<exists>ins. Computed y ins \<in> set (evs @ rest))"
    proof (intro allI impI)
      fix y assume "y \<noteq> x \<and> stores s' y \<noteq> stores s y"
      then have "stores s' y \<noteq> ((stores s)(x \<mapsto> v)) y" by simp
      with i8 obtain ins where "Computed y ins \<in> set rest" by blast
      then show "\<exists>ins. Computed y ins \<in> set (evs @ rest)" by auto
    qed
    have st: "\<forall>y. y \<noteq> x \<and> (x, y) \<notin> ?E\<^sup>+ \<longrightarrow> stores s' y = stores s y"
      using i6 by auto
    have ex: "\<exists>rest. trace s' = trace s @ rest
              \<and> (\<forall>e\<in>set rest. ev_name e = x \<or> (x, ev_name e) \<in> ?E\<^sup>+)
              \<and> (\<forall>y. y \<noteq> x \<and> stores s' y \<noteq> stores s y \<longrightarrow> (\<exists>ins. Computed y ins \<in> set rest))"
      using i3 ev ch by (intro exI [of _ "evs @ rest"]) simp
    from i1 i2 ex st cyc
    show "local_step x s s'" unfolding local_step_def by simp
  qed
qed

lemma edges_target_key: "(a, y) \<in> (edges D)\<^sup>+ \<Longrightarrow> y \<in> set (own_keys D)"
  by (erule tranclE) (auto simp: edges_def dest: depends_on_key)

text \<open>The shape of a set call that returns.\<close>

lemma set_fuel_shape:
  assumes ok: "set_fuel n x upd opts s = Some (Inr v, s')"
    and wf: "wf_derived (derivedStates s)"
  obtains silent evs rest where
    "apply_updater upd (VObj (spread (stores_get (stores s) x))) = Inr v"
    "silent_opt opts = Inr silent"
    "silent \<longrightarrow> evs = []"
    "\<not> silent \<longrightarrow> (\<exists>ls. listeners s x = Some ls
        \<and> evs = written x v (VObj (spread (stores_get (stores s) x))) ls
        \<and> (\<forall>l\<in>set ls. run l v (VObj (spread (stores_get (stores s) x))) = None))"
    "trace s' = trace s @ evs @ rest"
    "\<forall>e\<in>set rest. ev_name e \<noteq> x \<and> ev_name e \<in> set (own_keys (derivedStates s))"
    "\<forall>k. depends_on (derivedStates s) k x \<longrightarrow> (\<exists>ins. Computed k ins \<in> set rest)"
    "\<forall>y. y \<noteq> x \<and> stores s' y \<noteq> stores s y \<longrightarrow> (\<exists>ins. Computed y ins \<in> set rest)"
    "stores s' x = Some v"
    "\<forall>y. y \<noteq> x \<and> y \<notin> set (own_keys (derivedStates s)) \<longrightarrow> stores s' y = stores s y"
proof -
  let ?E = "edges (derivedStates s)"
  from ok obtain m where n: "n = Suc m" by (cases n) auto
  from ok [unfolded n] obtain silent evs where
    a: "apply_updater upd (VObj (spread (stores_get (stores s) x))) = Inr v"
    and b: "silent_opt opts = Inr silent"
    and sil: "silent \<longrightarrow> evs = []"
    and nsil: "\<not> silent \<longrightarrow> (\<exists>ls. listeners s x = Some ls
        \<and> evs = written x v (VObj (spread (stores_get (stores s) x))) ls
        \<and> (\<forall>l\<in>set ls. run l v (VObj (spread (stores_get (stores s) x))) = None))"
    and r: "run_updates (set_fuel m) x (own_keys (derivedStates s))
       (s\<lparr>stores := (stores s)(x \<mapsto> v), trace := trace s @ evs\<rparr>) = Some (Inr (), s')"
    by (rule set_fuel_Suc_ok)
  let ?s1 = "s\<lparr>stores := (stores s)(x \<mapsto> v), trace := trace s @ evs\<rparr>"
  have wf1: "wf_derived (derivedStates ?s1)" using wf by simp
  from local_setterD [OF set_fuel_local ok wf] have cyc: "(x, x) \<notin> ?E\<^sup>+"
    by (simp add: local_step_def)
  from run_updates_events [OF set_fuel_local r wf1] obtain rest where
    i3: "trace s' = trace s @ evs @ rest"
    and i4: "\<forall>e\<in>set rest. (x, ev_name e) \<in> ?E\<^sup>+"
    and i5: "\<forall>k\<in>set (own_keys (derivedStates s)). depends_on (derivedStates s) k x \<longrightarrow> (\<exists>ins. Computed k ins \<in> set rest)"
    and i8: "\<forall>y. stores s' y \<noteq> ((stores s)(x \<mapsto> v)) y \<longrightarrow> (\<exists>ins. Computed y ins \<in> set rest)"
    and i6: "\<forall>y. (x, y) \<notin> ?E\<^sup>+ \<longrightarrow> stores s' y = ((stores s)(x \<mapsto> v)) y"
    by auto
  have c1: "\<forall>e\<in>set rest. ev_name e \<noteq> x \<and> ev_name e \<in> set (own_keys (derivedStates s))"
    using i4 cyc edges_target_key by fastforce
  have c2: "\<forall>k. depends_on (derivedStates s) k x \<longrightarrow> (\<exists>ins. Computed k ins \<in> set rest)"
    using i5 depends_on_key by blast
  have c3: "\<forall>y. y \<noteq> x \<and> stores s' y \<noteq> stores s y \<longrightarrow> (\<exists>ins. Computed y ins \<in> set rest)"
  proof (intro allI impI)
    fix y assume "y \<noteq> x \<and> stores s' y \<noteq> stores s y"
    then have "stores s' y \<noteq> ((stores s)(x \<mapsto> v)) y" by simp
    with i8 show "\<exists>ins. Computed y ins \<in> set rest" by blast
  qed
  have c4: "stores s' x = Some v" using i6 cyc by auto
  have c5: "\<forall>y. y \<noteq> x \<and> y \<notin> set (own_keys (derivedStates s)) \<longrightarrow> stores s' y = stores s y"
  proof (intro allI impI)
    fix y assume y: "y \<noteq> x \<and> y \<notin> set (own_keys (derivedStates s))"
    then have "(x, y) \<notin> ?E\<^sup>+" using edges_target_key by blast
    with i6 y show "stores s' y = stores s y" by auto
  qed
  from a b sil nsil i3 c1 c2 c3 c4 c5 show ?thesis by (rule that)
qed

subsection \<open>The tables a set call leaves alone\<close>

lemma call_listeners_tables:
  "call_listeners name nx pv ls s = (r, s')
     \<Longrightarrow> derivedStates s' = derivedStates s \<and> listeners s' = listeners s \<and> stores s' = stores s"
proof (induction ls arbitrary: s)
  case Nil
  then show ?case by auto
next
  case (Cons l ls)
  show ?case
  proof (cases "run l nx pv")
    case (Some e)
    with Cons.prems show ?thesis by (auto simp: Let_def)
  next
    case None
    with Cons.prems have
      "call_listeners name nx pv ls (s\<lparr>trace := trace s @ [Notified name (lid l) nx pv]\<rparr>) = (r, s')"
      by (simp add: Let_def)
    from Cons.IH [OF this] show ?thesis by simp
  qed
qed

lemma notify_tables:
  "notify name nx pv s = (r, s')
     \<Longrightarrow> derivedStates s' = derivedStates s \<and> listeners s' = listeners s \<and> stores s' = stores s"
  by (cases "listeners s name") (auto simp: notify_def dest: call_listeners_tables)

lemma update_tables:
  assumes Q: "\<And>h u opts s r s'. setf h u opts s = Some (r, s')
      \<Longrightarrow> derivedStates s' = derivedStates s \<and> listeners s' = listeners s"
    and upd: "update setf k d s = Some (r, s')"
  shows "derivedStates s' = derivedStates s \<and> listeners s' = listeners s"
proof -
  let ?s1 = "s\<lparr>trace := trace s @ [Computed k (map (stores_get (stores s)) (deps d))]\<rparr>"
  show ?thesis
  proof (cases "computeFn d (map (stores_get (stores s)) (deps d))")
    case (Inl e)
    with upd show ?thesis by (auto simp: update_def Let_def)
  next
    case (Inr newState)
    show ?thesis
    proof (cases "dstore d")
      case (Raw v)
      with Inr upd show ?thesis by (auto simp: update_def Let_def)
    next
      case (Handle h)
      with Inr upd obtain r2 where
        "setf h (UVal newState) (VObj [(''silent'', VBool False)]) ?s1 = Some (r2, s')"
        by (auto simp: update_def Let_def split: option.splits sum.splits prod.splits)
      from Q [OF this] show ?thesis by simp
    qed
  qed
qed

lemma run_updates_tables:
  assumes Q: "\<And>h u opts s r s'. setf h u opts s = Some (r, s')
      \<Longrightarrow> derivedStates s' = derivedStates s \<and> listeners s' = listeners s"
  shows "run_updates setf x ks s = Some (r, s')
      \<Longrightarrow> derivedStates s' = derivedStates s \<and> listeners s' = listeners s"
proof (induction ks arbitrary: s)
  case Nil
  then show ?case by auto
next
  case (Cons k ks)
  show ?case
  proof (cases "map_of (derivedStates s) k")
    case None
    with Cons.prems show ?thesis by auto
  next
    case (Some d)
    show ?thesis
    proof (cases "x \<in> set (deps d)")
      case False
      with Some Cons.prems have "run_updates setf x ks s = Some (r, s')" by simp
      then show ?thesis by (rule Cons.IH)
    next
      case True
      show ?thesis
      proof (cases "update setf k d s")
        case None
        with Some True Cons.prems show ?thesis by simp
      next
        case (Some p)
        obtain r1 s1 where p: "p = (r1, s1)" by (cases p)
        from update_tables [OF Q Some [unfolded p]]
        have t1: "derivedStates s1 = derivedStates s \<and> listeners s1 = listeners s" .
        show ?thesis
        proof (cases r1)
          case (Inl e)
          with \<open>map_of (derivedStates s) k = Some d\<close> True Some p Cons.prems t1 show ?thesis by auto
        next
          case (Inr u)
          with \<open>map_of (derivedStates s) k = Some d\<close> True Some p Cons.prems
          have "run_updates setf x ks s1 = Some (r, s')" by simp
          from Cons.IH [OF this] t1 show ?thesis by simp
        qed
      qed
    qed
  qed
qed

lemma set_fuel_tables:
  "set_fuel n x upd opts s = Some (r, s')
     \<Longrightarrow> derivedStates s' = derivedStates s \<and> listeners s' = listeners s"
proof (induction n arbitrary: x upd opts s r s')
  case 0
  then show ?case by simp
next
  case (Suc n)
  let ?pv = "VObj (spread (stores_get (stores s) x))"
  show ?case
  proof (cases "apply_updater upd ?pv")
    case (Inl e)
    with Suc.prems show ?thesis by (auto simp: Let_def)
  next
    case (Inr v)
    let ?s1 = "s\<lparr>stores := (stores s)(x \<mapsto> v)\<rparr>"
    show ?thesis
    proof (cases "silent_opt opts")
      case (Inl e)
      with Inr Suc.prems show ?thesis by (auto simp: Let_def)
    next
      case sil: (Inr silent)
      obtain r2 s2 where n: "(if silent then (Inr (), ?s1) else notify x v ?pv ?s1) = (r2, s2)"
        by (cases "if silent then (Inr (), ?s1) else notify x v ?pv ?s1") auto
      then have t2: "derivedStates s2 = derivedStates s \<and> listeners s2 = listeners s"
        by (cases silent) (auto dest: notify_tables)
      show ?thesis
      proof (cases r2)
        case (Inl e)
        with Inr sil n Suc.prems t2 show ?thesis by (auto simp: Let_def)
      next
        case (Inr u)
        with \<open>apply_updater upd ?pv = Inr v\<close> sil n Suc.prems obtain r3 where
          "run_updates (set_fuel n) x (own_keys (derivedStates s2)) s2 = Some (r3, s')"
          by (auto simp: Let_def split: option.splits sum.splits prod.splits)
        from run_updates_tables [of "set_fuel n", OF Suc.IH this] t2 show ?thesis by simp
      qed
    qed
  qed
qed

lemma list_all_update:
  "list_all P al \<Longrightarrow> P (k, v) \<Longrightarrow> list_all P (AList.update k v al)"
  by (induction al) auto

text \<open>Every operation of the module keeps the derived table well formed.\<close>

lemma wf_derived_init: "wf_derived (derivedStates init_sys)"
  by (simp add: wf_derived_def init_sys_def)

lemma wf_derived_createStore:
  "wf_derived (derivedStates s) \<Longrightarrow> wf_derived (derivedStates (snd (createStore name init s)))"
  by (simp add: createStore_def)

lemma wf_derived_subscribe:
  "wf_derived (derivedStates s) \<Longrightarrow> wf_derived (derivedStates (snd (subscribe name cb s)))
     \<and> wf_derived (derivedStates (snd (unsubscribe name cb s)))"
  by (simp add: subscribe_def unsubscribe_def split: option.splits)

lemma wf_derived_set:
  "wf_derived (derivedStates s) \<Longrightarrow> set_fuel n x upd opts s = Some (r, s')
     \<Longrightarrow> wf_derived (derivedStates s')"
  by (simp add: set_fuel_tables)

lemma wf_derived_derive:
  assumes wf: "wf_derived (derivedStates s)"
    and dv: "derive n name ds f s = Some (r, s')"
  shows "wf_derived (derivedStates s')"
proof -
  obtain store s1 where c: "createStore name VUndef s = (store, s1)"
    by (cases "createStore name VUndef s")
  then have s1: "derivedStates s1 = derivedStates s"
    and st: "store = Handle name \<or> (\<exists>v. store = Raw v)"
    by (auto simp: createStore_def split: if_splits)
  let ?d = "\<lparr>deps = ds, computeFn = f, dstore = store\<rparr>"
  let ?s2 = "s1\<lparr>derivedStates := AList.update name ?d (derivedStates s1)\<rparr>"
  from st have "case (name, ?d) of (k, d) \<Rightarrow> (case dstore d of Handle h \<Rightarrow> h = k | Raw v \<Rightarrow> True)"
    by auto
  with wf s1 have wf2: "wf_derived (derivedStates ?s2)"
    by (simp add: wf_derived_def list_all_update)
  from dv c obtain r2 where "update (set_fuel n) name ?d ?s2 = Some (r2, s')"
    by (auto simp: derive_def Let_def split: option.splits sum.splits prod.splits)
  from update_tables [of "set_fuel n", OF set_fuel_tables this] wf2 show ?thesis by simp
qed

subsection \<open>Fuel: more is harmless, and enough makes set return\<close>












subsection \<open>The example system\<close>


lemma sys_of_fst: "map_option fst r = Some x \<Longrightarrow> r = Some (x, sys_of r)"
  by (cases r) (auto simp: sys_of_def)













lemma demo_wf: "wf_derived (derivedStates demo_sys)"
  by code_simp



lemma demo_set_val: "map_option fst demo_set = Some (Inr (VObj [(''loggedIn'', VBool True)]))"
  by code_simp


lemma demo_direct_val: "map_option fst demo_direct = Some (Inr (VObj [(''guest'', VBool True), (''welcome'', VBool True)]))"
  by code_simp

lemma demo_set_events:
  "new_events demo_sys (sys_of demo_set) =
     [Notified ''user'' 7 (VObj [(''loggedIn'', VBool True)]) (VObj [(''loggedIn'', VBool False)]),
      Computed ''ui'' [VObj [(''loggedIn'', VBool True)]],
      Notified ''ui'' 8 (VObj [(''guest'', VBool True), (''welcome'', VBool True)]) (VObj [(''guest'', VBool True)]),
      Computed ''badge'' [VObj [(''guest'', VBool True), (''welcome'', VBool True)]]]"
  by code_simp

lemma demo_badge_consistent_before: "consistent (derivedStates demo_sys) (stores demo_sys) ''badge''"
proof -
  have a: "map_option deps (map_of (derivedStates demo_sys) ''badge'') = Some [''ui'']" by code_simp
  have b: "map_option (\<lambda>d. computeFn d (map (stores_get (stores demo_sys)) (deps d)))
             (map_of (derivedStates demo_sys) ''badge'') = Some (Inr (VObj [(''label'', VStr ''out'')]))"
    by code_simp
  have c: "stores demo_sys ''badge'' = Some (VObj (merge_props (spread (VObj [])) (spread (VObj [(''label'', VStr ''out'')]))))"
    by code_simp
  from a obtain d where d: "map_of (derivedStates demo_sys) ''badge'' = Some d" by auto
  with b have "computeFn d (map (stores_get (stores demo_sys)) (deps d)) = Inr (VObj [(''label'', VStr ''out'')])"
    by simp
  with d c show ?thesis unfolding consistent_def by (auto intro!: exI [of _ "VObj []"])
qed

subsection \<open>Notification, recomputation and their order\<close>


lemma new_events_append: "trace s' = trace s @ t \<Longrightarrow> new_events s s' = t"
  by (simp add: new_events_def)








text \<open>
  C9. The claim: the content of a derived store is only written by its own compute re-run,
  never directly by a caller. The handle \<open>derive\<close> returns is the one \<open>createStore\<close> made,
  and its \<open>set\<close> makes no difference between stores. What holds for every \<open>set\<close> that
  returns, on a derived store or not: the target's state becomes the updater's result on
  the copy of its previous state; and every other store whose content differs on return
  is a key of \<open>derivedStates\<close> whose compute function was called during the \<open>set\<close>.
\<close>

theorem set_writes_its_target_directly:
  assumes "set_fuel n x upd opts s = Some (Inr v, s')"
    and "wf_derived (derivedStates s)"
  shows "apply_updater upd (VObj (spread (stores_get (stores s) x))) = Inr v
    \<and> stores s' x = Some v
    \<and> (\<forall>y. y \<noteq> x \<and> stores s' y \<noteq> stores s y
          \<longrightarrow> y \<in> set (own_keys (derivedStates s)) \<and> (\<exists>ins. Computed y ins \<in> set (new_events s s')))"
proof -
  from assms obtain silent evs rest where
    a: "apply_updater upd (VObj (spread (stores_get (stores s) x))) = Inr v"
    and t: "trace s' = trace s @ evs @ rest"
    and c1: "\<forall>e\<in>set rest. ev_name e \<noteq> x \<and> ev_name e \<in> set (own_keys (derivedStates s))"
    and c3: "\<forall>y. y \<noteq> x \<and> stores s' y \<noteq> stores s y \<longrightarrow> (\<exists>ins. Computed y ins \<in> set rest)"
    and c4: "stores s' x = Some v"
    by (rule set_fuel_shape)
  from t have ne: "new_events s s' = evs @ rest" by (simp add: new_events_append)
  have p: "y \<in> set (own_keys (derivedStates s)) \<and> (\<exists>ins. Computed y ins \<in> set (new_events s s'))"
    if "y \<noteq> x \<and> stores s' y \<noteq> stores s y" for y
  proof -
    from that c3 obtain ins where i: "Computed y ins \<in> set rest" by blast
    with c1 have "y \<in> set (own_keys (derivedStates s))" by fastforce
    with i ne show ?thesis by auto
  qed
  have p': "\<forall>y. y \<noteq> x \<and> stores s' y \<noteq> stores s y
          \<longrightarrow> y \<in> set (own_keys (derivedStates s)) \<and> (\<exists>ins. Computed y ins \<in> set (new_events s s'))"
    using p by blast
  from a c4 p' show ?thesis by (intro conjI)
qed

theorem set_writes_its_target_directly_witness:
  "set_fuel 3 ''ui'' (UVal (VObj [(''welcome'', VBool True)])) VUndef demo_sys
     = Some (Inr (VObj [(''guest'', VBool True), (''welcome'', VBool True)]), sys_of demo_direct)
   \<and> wf_derived (derivedStates demo_sys)
   \<and> ''ui'' \<in> set (own_keys (derivedStates demo_sys))
   \<and> stores (sys_of demo_direct) ''ui'' = Some (VObj [(''guest'', VBool True), (''welcome'', VBool True)])
   \<and> ''badge'' \<noteq> ''ui'' \<and> stores (sys_of demo_direct) ''badge'' \<noteq> stores demo_sys ''badge''
   \<and> (\<exists>ins. Computed ''badge'' ins \<in> set (new_events demo_sys (sys_of demo_direct)))"
proof -
  have ok: "set_fuel 3 ''ui'' (UVal (VObj [(''welcome'', VBool True)])) VUndef demo_sys
     = Some (Inr (VObj [(''guest'', VBool True), (''welcome'', VBool True)]), sys_of demo_direct)"
    using sys_of_fst [OF demo_direct_val] by (simp add: demo_direct_def)
  have k: "''ui'' \<in> set (own_keys (derivedStates demo_sys))" by code_simp
  have ne: "''badge'' \<noteq> ''ui''" by simp
  have ch: "stores (sys_of demo_direct) ''badge'' \<noteq> stores demo_sys ''badge''" by code_simp
  note th = set_writes_its_target_directly [OF ok demo_wf]
  have a: "stores (sys_of demo_direct) ''ui'' = Some (VObj [(''guest'', VBool True), (''welcome'', VBool True)])"
    by (rule th [THEN conjunct2, THEN conjunct1])
  have b: "\<exists>ins. Computed ''badge'' ins \<in> set (new_events demo_sys (sys_of demo_direct))"
    by (rule th [THEN conjunct2, THEN conjunct2, rule_format, OF conjI [OF ne ch], THEN conjunct2])
  from ok demo_wf k a ne ch b show ?thesis by (intro conjI)
qed

text \<open>
  In the system of \<open>demo_sys\<close>, \<open>ui\<close> is derived from \<open>user\<close>. A caller's
  \<open>uiStore.set({welcome: true})\<close> returns and leaves \<open>ui\<close> with \<open>welcome\<close>, which the
  compute function does not give for the live \<open>user\<close>; the only calls made are the
  notification of \<open>ui\<close>'s listener and the recomputation of \<open>badge\<close>.
\<close>

theorem derived_store_set_by_caller:
  "map_option deps (map_of (derivedStates demo_sys) ''ui'') = Some [''user'']
   \<and> map_option fst demo_direct = Some (Inr (VObj [(''guest'', VBool True), (''welcome'', VBool True)]))
   \<and> get es_excerpt ''ui'' VUndef (sys_of demo_direct)
       = Inr (Data (VObj [(''guest'', VBool True), (''welcome'', VBool True)]))
   \<and> ui_of [stores_get (stores (sys_of demo_direct)) ''user''] = Inr (VObj [(''guest'', VBool True)])
   \<and> new_events demo_sys (sys_of demo_direct) =
     [Notified ''ui'' 8 (VObj [(''guest'', VBool True), (''welcome'', VBool True)]) (VObj [(''guest'', VBool True)]),
      Computed ''badge'' [VObj [(''guest'', VBool True), (''welcome'', VBool True)]]]"
  by code_simp

text \<open>
  C10. When a \<open>set\<close> on store \<open>x\<close> returns, the calls it made are: first the
  notifications of \<open>x\<close>'s listeners (none when silent), then calls that all belong to
  derived stores, none to \<open>x\<close>. Among them is a compute call for every entry whose \<open>deps\<close>
  contain \<open>x\<close>, and on return each of these entries is up to date (its state is its
  compute result on the live states, spread over a previous state); so is every other
  derived store that was up to date before the call, which covers the recomputations
  triggered transitively.
\<close>

theorem set_effects_in_order:
  assumes "set_fuel n x upd opts s = Some (Inr v, s')"
    and "wf_derived (derivedStates s)"
  shows "\<exists>evs rest. new_events s s' = evs @ rest
    \<and> (silent_opt opts = Inr True \<and> evs = []
        \<or> silent_opt opts = Inr False
           \<and> (\<exists>ls. listeners s x = Some ls
                \<and> evs = map (\<lambda>l. Notified x (lid l) v (VObj (spread (stores_get (stores s) x)))) ls))
    \<and> (\<forall>e\<in>set rest. ev_name e \<noteq> x \<and> ev_name e \<in> set (own_keys (derivedStates s)))
    \<and> (\<forall>k. depends_on (derivedStates s) k x
          \<longrightarrow> (\<exists>ins. Computed k ins \<in> set rest) \<and> consistent (derivedStates s) (stores s') k)
    \<and> (\<forall>k. k \<noteq> x \<and> consistent (derivedStates s) (stores s) k
          \<longrightarrow> consistent (derivedStates s) (stores s') k)"
proof -
  let ?pv = "VObj (spread (stores_get (stores s) x))"
  let ?D = "derivedStates s"
  from assms obtain silent evs rest where
    b: "silent_opt opts = Inr silent" and sil: "silent \<longrightarrow> evs = []"
    and nsil: "\<not> silent \<longrightarrow> (\<exists>ls. listeners s x = Some ls \<and> evs = written x v ?pv ls
        \<and> (\<forall>l\<in>set ls. run l v ?pv = None))"
    and t: "trace s' = trace s @ evs @ rest"
    and c1: "\<forall>e\<in>set rest. ev_name e \<noteq> x \<and> ev_name e \<in> set (own_keys ?D)"
    and c2: "\<forall>k. depends_on ?D k x \<longrightarrow> (\<exists>ins. Computed k ins \<in> set rest)"
    by (rule set_fuel_shape)
  from set_fuel_consistent [OF assms] have
    k1: "\<And>k. depends_on ?D k x \<Longrightarrow> consistent ?D (stores s') k"
    and k3: "\<And>k. consistent ?D ((stores s)(x \<mapsto> v)) k \<Longrightarrow> consistent ?D (stores s') k"
    by simp_all
  from t have ne: "new_events s s' = evs @ rest" by (simp add: new_events_append)
  have first: "silent_opt opts = Inr True \<and> evs = []
        \<or> silent_opt opts = Inr False
           \<and> (\<exists>ls. listeners s x = Some ls \<and> evs = map (\<lambda>l. Notified x (lid l) v ?pv) ls)"
    using b sil nsil by (cases silent) (auto simp: written_def)
  have dep: "(\<exists>ins. Computed k ins \<in> set rest) \<and> consistent ?D (stores s') k"
    if "depends_on ?D k x" for k
    using that c2 k1 by blast
  have pres: "consistent ?D (stores s') k" if "k \<noteq> x \<and> consistent ?D (stores s) k" for k
  proof (cases "depends_on ?D k x")
    case True
    then show ?thesis by (rule k1)
  next
    case False
    from that have "consistent ?D (stores s) k" "k \<noteq> x" by simp_all
    from consistent_write_elsewhere [OF this(1) False this(2), of v] show ?thesis by (rule k3)
  qed
  have dep': "\<forall>k. depends_on ?D k x
          \<longrightarrow> (\<exists>ins. Computed k ins \<in> set rest) \<and> consistent ?D (stores s') k"
    using dep by blast
  have pres': "\<forall>k. k \<noteq> x \<and> consistent ?D (stores s) k \<longrightarrow> consistent ?D (stores s') k"
    using pres by blast
  show ?thesis
    apply (rule exI [of _ evs])
    apply (rule exI [of _ rest])
    using ne first c1 dep' pres' apply (intro conjI)
        apply assumption+
    done
qed

theorem set_effects_in_order_witness:
  "set_fuel 3 ''user'' login VUndef demo_sys
     = Some (Inr (VObj [(''loggedIn'', VBool True)]), sys_of demo_set)
   \<and> wf_derived (derivedStates demo_sys)
   \<and> depends_on (derivedStates demo_sys) ''ui'' ''user''
   \<and> ''badge'' \<noteq> ''user'' \<and> consistent (derivedStates demo_sys) (stores demo_sys) ''badge''
   \<and> consistent (derivedStates demo_sys) (stores (sys_of demo_set)) ''ui''
   \<and> consistent (derivedStates demo_sys) (stores (sys_of demo_set)) ''badge''
   \<and> new_events demo_sys (sys_of demo_set) =
     [Notified ''user'' 7 (VObj [(''loggedIn'', VBool True)]) (VObj [(''loggedIn'', VBool False)]),
      Computed ''ui'' [VObj [(''loggedIn'', VBool True)]],
      Notified ''ui'' 8 (VObj [(''guest'', VBool True), (''welcome'', VBool True)]) (VObj [(''guest'', VBool True)]),
      Computed ''badge'' [VObj [(''guest'', VBool True), (''welcome'', VBool True)]]]"
proof -
  have ok: "set_fuel 3 ''user'' login VUndef demo_sys
     = Some (Inr (VObj [(''loggedIn'', VBool True)]), sys_of demo_set)"
    using sys_of_fst [OF demo_set_val] by (simp add: demo_set_def)
  have dep: "depends_on (derivedStates demo_sys) ''ui'' ''user''" by code_simp
  have ne: "''badge'' \<noteq> ''user''" by simp
  from set_effects_in_order [OF ok demo_wf] obtain evs rest where
    th: "new_events demo_sys (sys_of demo_set) = evs @ rest
    \<and> (silent_opt VUndef = Inr True \<and> evs = []
        \<or> silent_opt VUndef = Inr False
           \<and> (\<exists>ls. listeners demo_sys ''user'' = Some ls
                \<and> evs = map (\<lambda>l. Notified ''user'' (lid l) (VObj [(''loggedIn'', VBool True)])
                          (VObj (spread (stores_get (stores demo_sys) ''user'')))) ls))
    \<and> (\<forall>e\<in>set rest. ev_name e \<noteq> ''user'' \<and> ev_name e \<in> set (own_keys (derivedStates demo_sys)))
    \<and> (\<forall>k. depends_on (derivedStates demo_sys) k ''user''
          \<longrightarrow> (\<exists>ins. Computed k ins \<in> set rest)
              \<and> consistent (derivedStates demo_sys) (stores (sys_of demo_set)) k)
    \<and> (\<forall>k. k \<noteq> ''user'' \<and> consistent (derivedStates demo_sys) (stores demo_sys) k
          \<longrightarrow> consistent (derivedStates demo_sys) (stores (sys_of demo_set)) k)"
    by (elim exE)
  have a: "consistent (derivedStates demo_sys) (stores (sys_of demo_set)) ''ui''"
    by (rule th [THEN conjunct2, THEN conjunct2, THEN conjunct2, THEN conjunct1, rule_format,
          OF dep, THEN conjunct2])
  have b: "consistent (derivedStates demo_sys) (stores (sys_of demo_set)) ''badge''"
    by (rule th [THEN conjunct2, THEN conjunct2, THEN conjunct2, THEN conjunct2, rule_format,
          OF conjI [OF ne demo_badge_consistent_before]])
  from ok demo_wf dep ne demo_badge_consistent_before a b demo_set_events show ?thesis
    by (intro conjI)
qed

subsection \<open>The copy returned by get\<close>

lemma heap_ok_get_copy:
  assumes "heap_ok name hs"
  shows "heap_ok name (snd (get_copy name hs))"
proof -
  from assms have a: "\<And>a. a \<in> dom (heap hs) \<Longrightarrow> a < next_addr hs"
    and b: "case cells_get hs name of JRef r \<Rightarrow> r \<in> dom (heap hs) | _ \<Rightarrow> True"
    by (auto simp: heap_ok_def)
  have c: "cells_get (snd (get_copy name hs)) name = cells_get hs name"
    by (simp add: get_copy_def cells_get_def)
  show ?thesis unfolding heap_ok_def
  proof
    show "\<forall>a\<in>dom (heap (snd (get_copy name hs))). a < next_addr (snd (get_copy name hs))"
      using a by (auto simp: get_copy_def less_Suc_eq)
    show "case cells_get (snd (get_copy name hs)) name of
            JRef r \<Rightarrow> r \<in> dom (heap (snd (get_copy name hs))) | _ \<Rightarrow> True"
      unfolding c using b by (cases "cells_get hs name") (auto simp: get_copy_def)
  qed
qed

lemma heap_ok_mutate: "heap_ok name hs \<Longrightarrow> heap_ok name (mutate a m hs)"
  by (auto simp: heap_ok_def mutate_def cells_get_def split: jv.splits option.splits)

lemma mutate_many_other:
  "a \<noteq> r \<Longrightarrow> heap (fold (mutate a) ms hs) r = heap hs r"
  by (induction ms arbitrary: hs) (auto simp: mutate_def split: option.splits)

lemma mutate_many_frame:
  "next_addr (fold (mutate a) ms hs) = next_addr hs \<and> cells (fold (mutate a) ms hs) = cells hs"
  by (induction ms arbitrary: hs) (auto simp: mutate_def split: option.splits)

lemma spread_ref_cong:
  "(\<And>r. v = JRef r \<Longrightarrow> h r = h' r) \<Longrightarrow> spread_ref h v = spread_ref h' v"
  by (cases v) simp_all

text \<open>
  C6. \<open>get()\<close> returns a new object holding the own properties of the store's state; after
  any sequence of top-level writes and deletions on that object, a further \<open>get()\<close>
  returns an object with the same properties as the first.
\<close>

theorem get_returns_isolated_copy:
  assumes "heap_ok name hs"
  shows "fst (get_copy name hs) = JRef (next_addr hs)
    \<and> next_addr hs \<notin> dom (heap hs)
    \<and> props_of (get_copy name hs) = Some (spread_ref (heap hs) (cells_get hs name))
    \<and> props_of (get_copy name (fold (mutate (next_addr hs)) ms (snd (get_copy name hs))))
         = props_of (get_copy name hs)"
proof -
  let ?a = "next_addr hs"
  let ?h1 = "snd (get_copy name hs)"
  let ?h2 = "fold (mutate ?a) ms ?h1"
  from assms have fresh: "?a \<notin> dom (heap hs)" by (auto simp: heap_ok_def)
  have c1: "cells_get ?h1 name = cells_get hs name" by (simp add: get_copy_def cells_get_def)
  have c2: "cells_get ?h2 name = cells_get hs name"
    using mutate_many_frame [of ?a ms ?h1] c1 by (simp add: cells_get_def)
  have same: "heap ?h2 r = heap hs r" if "cells_get hs name = JRef r" for r
  proof -
    from assms that have "r \<in> dom (heap hs)" by (simp add: heap_ok_def)
    with fresh have ne: "?a \<noteq> r" by auto
    then have "heap ?h2 r = heap ?h1 r" by (rule mutate_many_other)
    also from ne have "\<dots> = heap hs r" by (simp add: get_copy_def)
    finally show ?thesis .
  qed
  have sp: "spread_ref (heap ?h2) (cells_get hs name) = spread_ref (heap hs) (cells_get hs name)"
    by (rule spread_ref_cong) (rule same)
  have p1: "props_of (get_copy name hs) = Some (spread_ref (heap hs) (cells_get hs name))"
    by (simp add: props_of_def get_copy_def)
  have p2: "props_of (get_copy name ?h2) = Some (spread_ref (heap ?h2) (cells_get ?h2 name))"
    by (simp add: props_of_def get_copy_def)
  from fresh p1 p2 sp c2 show ?thesis by (simp add: get_copy_def)
qed

theorem get_returns_isolated_copy_witness:
  "heap_ok ''x'' h6
   \<and> props_of (get_copy ''x'' h6) = Some [(''a'', JNum 1), (''inner'', JRef 1)]
   \<and> props_of (get_copy ''x'' (fold (mutate (next_addr h6)) [Assign ''a'' (JNum 9), Delete ''inner'', Assign ''c'' JNull]
         (snd (get_copy ''x'' h6))))
      = props_of (get_copy ''x'' h6)"
proof -
  have ok: "heap_ok ''x'' h6" by (simp add: heap_ok_def h6_def cells_get_def)
  have p: "props_of (get_copy ''x'' h6) = Some [(''a'', JNum 1), (''inner'', JRef 1)]"
    by (simp add: props_of_def get_copy_def h6_def cells_get_def)
  from get_returns_isolated_copy [OF ok, of "[Assign ''a'' (JNum 9), Delete ''inner'', Assign ''c'' JNull]"]
  have "props_of (get_copy ''x'' (fold (mutate (next_addr h6)) [Assign ''a'' (JNum 9), Delete ''inner'', Assign ''c'' JNull]
         (snd (get_copy ''x'' h6))))
      = props_of (get_copy ''x'' h6)" by (elim conjE)
  with ok p show ?thesis by (intro conjI)
qed

text \<open>The copy is shallow: both it and the state hold the reference to the inner object,
  so a write into the inner object through the copy changes what the state refers to.\<close>

lemma nested_write_is_shared:
  "map_of (the (props_of (get_copy ''x'' h6))) ''inner'' = Some (JRef 1)
   \<and> heap (mutate 1 (Assign ''b'' (JNum 7)) (snd (get_copy ''x'' h6))) 1 = Some [(''b'', JNum 7)]
   \<and> heap h6 1 = Some [(''b'', JNum 2)]"
  by (simp add: props_of_def get_copy_def h6_def cells_get_def mutate_def)

end
